theory Spec2Isabelle
  imports Complex_Main "HOL-Library.Word"
begin

unbundle bit_operations_syntax

section \<open>Configuration constants of video_esp32.cpp\<close>

definition MAC_SCREEN_WIDTH :: nat where [simp]: "MAC_SCREEN_WIDTH = 640"
definition MAC_SCREEN_HEIGHT :: nat where [simp]: "MAC_SCREEN_HEIGHT = 360"
definition PIXEL_SCALE :: nat where [simp]: "PIXEL_SCALE = 2"
definition DISPLAY_WIDTH :: nat where [simp]: "DISPLAY_WIDTH = 1280"
definition DISPLAY_HEIGHT :: nat where [simp]: "DISPLAY_HEIGHT = 720"
definition TILE_WIDTH :: nat where [simp]: "TILE_WIDTH = 40"
definition TILE_HEIGHT :: nat where [simp]: "TILE_HEIGHT = 40"
definition TILES_X :: nat where [simp]: "TILES_X = 16"
definition TILES_Y :: nat where [simp]: "TILES_Y = 9"
definition TOTAL_TILES :: nat where [simp]: "TOTAL_TILES = TILES_X * TILES_Y"
definition DIRTY_THRESHOLD_PERCENT :: nat where [simp]: "DIRTY_THRESHOLD_PERCENT = 80"

type_synonym uint8 = "8 word"
type_synonym uint16 = "16 word"
type_synonym uint32 = "32 word"

section \<open>Colour conversion\<close>

text \<open>
  \<^verbatim>\<open>rgb888_to_rgb565\<close>: the three \<^verbatim>\<open>uint8\<close> arguments are promoted to 32-bit
  \<^verbatim>\<open>int\<close> (no intermediate value exceeds 19 bits), the result is truncated to
  \<^verbatim>\<open>uint16\<close> by the return type.
\<close>

definition rgb888_to_rgb565 :: "uint8 \<Rightarrow> uint8 \<Rightarrow> uint8 \<Rightarrow> uint16" where
  "rgb888_to_rgb565 r g b =
     ucast (((push_bit 3 (drop_bit 3 (ucast r :: uint32))) OR drop_bit 5 (ucast g :: uint32))
            OR push_bit 8 ((push_bit 5 (drop_bit 2 (ucast g :: uint32)))
                           OR drop_bit 3 (ucast b :: uint32)))"

text \<open>The plain (not byte-swapped) RGB565 packing, for comparison: R5 G6 B5 from the top.\<close>

definition rgb565_plain :: "uint8 \<Rightarrow> uint8 \<Rightarrow> uint8 \<Rightarrow> uint16" where
  "rgb565_plain r g b =
     push_bit 11 (ucast (drop_bit 3 r)) OR push_bit 5 (ucast (drop_bit 2 g))
       OR ucast (drop_bit 3 b)"

definition swap_bytes16 :: "uint16 \<Rightarrow> uint16" where
  "swap_bytes16 v = push_bit 8 v OR drop_bit 8 v"

section \<open>Tile grid\<close>

text \<open>
  Tile index of a source pixel, as \<^verbatim>\<open>VideoMarkDirtyOffset\<close> computes it from the pixel
  coordinates: \<^verbatim>\<open>tile_x = x / TILE_WIDTH; tile_y = y / TILE_HEIGHT;
  tile_idx = tile_y * TILES_X + tile_x\<close>.
\<close>

definition tile_index :: "nat \<Rightarrow> nat \<Rightarrow> nat" where
  "tile_index x y = (y div TILE_HEIGHT) * TILES_X + x div TILE_WIDTH"

text \<open>
  The source pixels of tile \<open>(tx, ty)\<close>, as the tile loops address them
  (\<^verbatim>\<open>src_start_x = tile_x * TILE_WIDTH\<close>, \<^verbatim>\<open>src_start_y = tile_y * TILE_HEIGHT\<close>,
  then \<^verbatim>\<open>TILE_HEIGHT\<close> rows of \<^verbatim>\<open>TILE_WIDTH\<close> pixels).
\<close>

definition tile_pixels :: "nat \<Rightarrow> nat \<Rightarrow> (nat \<times> nat) set" where
  "tile_pixels tx ty =
     image (\<lambda>(c, r). (tx * TILE_WIDTH + c, ty * TILE_HEIGHT + r))
       ({0..<TILE_WIDTH} \<times> {0..<TILE_HEIGHT})"

section \<open>Driver state\<close>

text \<open>
  The commands the driver sends to \<^verbatim>\<open>M5.Display\<close>, in the order it sends them. The
  display is an external collaborator: the model keeps the log of what was pushed.
\<close>

datatype display_cmd =
    StartWrite
  | SetAddrWindow nat nat nat nat
  | WritePixels "uint16 list"
  | EndWrite

text \<open>
  The file-scope variables of video_esp32.cpp. A buffer pointer is \<open>None\<close> when it
  is \<^verbatim>\<open>NULL\<close> and \<open>Some\<close> of the buffer's contents otherwise. \<open>heap_live\<close> counts
  the blocks obtained from \<^verbatim>\<open>ps_malloc\<close> and not yet passed to \<^verbatim>\<open>free\<close>.
  \<open>notify_value\<close> is the FreeRTOS notification value of the video task,
  \<open>last_frame_ticks\<close> the local of \<^verbatim>\<open>videoRenderTaskOptimized\<close> that lives across
  loop iterations, \<open>tile_snapshot\<close> and \<open>tile_buffer\<close> the static locals of
  \<^verbatim>\<open>renderAndPushDirtyTiles\<close>.
\<close>

record video_state =
  mac_frame_buffer :: "uint8 list option"
  frame_buffer_size :: uint32
  dsi_framebuffer :: "uint16 list option"
  frame_ready :: bool
  video_task_handle :: bool
  video_task_running :: bool
  palette_rgb565 :: "uint16 list"
  snapshot_buffer :: "uint8 list option"
  compare_buffer :: "uint8 list option"
  dirty_tiles :: "uint32 list"
  write_dirty_tiles :: "uint32 list"
  force_full_update :: bool
  dirty_tile_count :: int
  use_write_dirty_tracking :: bool
  perf_snapshot_us :: uint32
  perf_detect_us :: uint32
  perf_render_us :: uint32
  perf_push_us :: uint32
  perf_frame_count :: uint32
  perf_partial_count :: uint32
  perf_full_count :: uint32
  perf_skip_count :: uint32
  perf_last_report_ms :: uint32
  notify_value :: uint32
  last_frame_ticks :: uint32
  tile_snapshot :: "uint8 list"
  tile_buffer :: "uint16 list"
  display :: "display_cmd list"
  heap_live :: nat

text \<open>Number of 32-bit words of a dirty bitmap: \<^verbatim>\<open>(TOTAL_TILES + 31) / 32\<close>.\<close>

definition BITMAP_WORDS :: nat where [simp]: "BITMAP_WORDS = (TOTAL_TILES + 31) div 32"

section \<open>Write-time dirty tracking\<close>

text \<open>
  \<^verbatim>\<open>bitmap[tile_idx / 32] & (1 << (tile_idx % 32))\<close>, the test of \<^verbatim>\<open>isTileDirty\<close>.
\<close>

definition bitmap_test :: "uint32 list \<Rightarrow> nat \<Rightarrow> bool" where
  "bitmap_test bm tile_idx = ((bm ! (tile_idx div 32)) AND push_bit (tile_idx mod 32) 1 \<noteq> 0)"

definition isTileDirty :: "video_state \<Rightarrow> nat \<Rightarrow> bool" where
  "isTileDirty s tile_idx = bitmap_test (dirty_tiles s) tile_idx"

text \<open>
  \<^verbatim>\<open>__atomic_or_fetch(&bitmap[i], v, __ATOMIC_RELAXED)\<close>. The bitmaps have
  \<open>BITMAP_WORDS\<close> words; an index beyond them would be a write outside the array in C
  and leaves the list as it is here (\<open>offset_tile_idx_bound\<close> below shows that the
  driver never computes one while \<open>frame_buffer_size\<close> is at most 640 * 360).
\<close>

definition atomic_or :: "uint32 list \<Rightarrow> nat \<Rightarrow> uint32 \<Rightarrow> uint32 list" where
  "atomic_or bm i v = bm[i := (bm ! i) OR v]"

text \<open>Tile index of a byte offset into the Mac framebuffer.\<close>

definition offset_tile_idx :: "uint32 \<Rightarrow> nat" where
  "offset_tile_idx offset =
     (let y = unat offset div MAC_SCREEN_WIDTH;
          x = unat offset mod MAC_SCREEN_WIDTH
      in tile_index x y)"

definition VideoMarkDirtyOffset :: "uint32 \<Rightarrow> video_state \<Rightarrow> video_state" where
  "VideoMarkDirtyOffset offset s =
     (if \<not> use_write_dirty_tracking s then s
      else if offset \<ge> frame_buffer_size s then s
      else let tile_idx = offset_tile_idx offset
           in s\<lparr>write_dirty_tiles :=
                  atomic_or (write_dirty_tiles s) (tile_idx div 32) (push_bit (tile_idx mod 32) 1)\<rparr>)"

text \<open>
  The clamp of \<^verbatim>\<open>VideoMarkDirtyRange\<close>; \<^verbatim>\<open>offset + size\<close> is computed in
  \<^verbatim>\<open>uint32\<close> and wraps.
\<close>

definition clamp_size :: "uint32 \<Rightarrow> uint32 \<Rightarrow> uint32 \<Rightarrow> uint32" where
  "clamp_size fbsize offset sz = (if offset + sz > fbsize then fbsize - offset else sz)"

definition VideoMarkDirtyRange :: "uint32 \<Rightarrow> uint32 \<Rightarrow> video_state \<Rightarrow> video_state" where
  "VideoMarkDirtyRange offset sz s =
     (if \<not> use_write_dirty_tracking s then s
      else if offset \<ge> frame_buffer_size s then s
      else let sz' = clamp_size (frame_buffer_size s) offset sz;
               s1 = VideoMarkDirtyOffset offset s
           in if sz' > 1 then VideoMarkDirtyOffset (offset + sz' - 1) s1 else s1)"

text \<open>
  The popcount loop of \<^verbatim>\<open>collectWriteDirtyTiles\<close>:
  \<^verbatim>\<open>while (bits) { count += (bits & 1); bits >>= 1; }\<close>. The count stays below 160,
  far from the range of \<^verbatim>\<open>int\<close>.
\<close>

function popcount_loop :: "uint32 \<Rightarrow> int \<Rightarrow> int" where
  "popcount_loop bits count =
     (if bits \<noteq> 0 then popcount_loop (drop_bit 1 bits) (count + uint (bits AND 1)) else count)"
  by pat_completeness auto
termination
proof (relation "measure (\<lambda>(bits, count). unat bits)")
  show "wf (measure (\<lambda>(bits :: uint32, count :: int). unat bits))" by simp
next
  fix bits :: uint32 and count :: int
  assume "bits \<noteq> 0"
  then have "0 < unat bits" by (simp add: unat_gt_0)
  then have "unat bits div 2 < unat bits" by simp
  then show "((drop_bit 1 bits, count + uint (bits AND 1)), (bits, count))
             \<in> measure (\<lambda>(bits, count). unat bits)"
    by (simp add: drop_bit_eq_div unat_div)
qed

declare popcount_loop.simps [simp del]

text \<open>
  The word loop of \<^verbatim>\<open>collectWriteDirtyTiles\<close>, from index \<open>i\<close> on:
  \<^verbatim>\<open>__atomic_exchange_n(&write_dirty_tiles[i], 0, ...)\<close> reads the word and stores
  zero, the word read goes to \<^verbatim>\<open>dirty_tiles[i]\<close> and its set bits are counted.
\<close>

function collect_words :: "nat \<Rightarrow> int \<Rightarrow> video_state \<Rightarrow> int \<times> video_state" where
  "collect_words i count s =
     (if i < BITMAP_WORDS then
        let bits = write_dirty_tiles s ! i;
            s1 = s\<lparr>write_dirty_tiles := (write_dirty_tiles s)[i := 0]\<rparr>;
            s2 = s1\<lparr>dirty_tiles := (dirty_tiles s1)[i := bits]\<rparr>
        in collect_words (i + 1) (popcount_loop bits count) s2
      else (count, s))"
  by pat_completeness auto
termination
  by (relation "measure (\<lambda>(i, count, s). BITMAP_WORDS - i)") auto

declare collect_words.simps [simp del]

definition collectWriteDirtyTiles :: "video_state \<Rightarrow> int \<times> video_state" where
  "collectWriteDirtyTiles s = collect_words 0 0 s"
section \<open>Pixel conversion\<close>

text \<open>
  \<^verbatim>\<open>*((uint32 *)src)\<close> on the little-endian ESP32-P4: the byte at the lowest address
  is the least significant one.
\<close>

definition read_u32 :: "uint8 list \<Rightarrow> nat \<Rightarrow> uint32" where
  "read_u32 buf i =
     ucast (buf ! i) OR push_bit 8 (ucast (buf ! (i + 1)))
       OR push_bit 16 (ucast (buf ! (i + 2))) OR push_bit 24 (ucast (buf ! (i + 3)))"

definition palette_at :: "uint16 list \<Rightarrow> uint32 \<Rightarrow> uint16" where
  "palette_at local_palette k = local_palette ! unat k"

text \<open>
  The two inner loops that \<^verbatim>\<open>renderTileToBuffer\<close>, \<^verbatim>\<open>renderTileFromSnapshot\<close> and
  \<^verbatim>\<open>renderFrameToDSI\<close> repeat verbatim, for a row of \<open>w\<close> source pixels
  (\<^verbatim>\<open>TILE_WIDTH\<close> or \<^verbatim>\<open>MAC_SCREEN_WIDTH\<close>). \<open>si\<close> is the pointer \<^verbatim>\<open>src\<close> as an index
  into the source buffer, \<open>d0\<close> and \<open>d1\<close> are \<^verbatim>\<open>dst_row0\<close> and \<^verbatim>\<open>dst_row1\<close> as
  indices into the output buffer. First loop: four source pixels per step, read as one
  32-bit word, each written twice to each of the two output rows.
\<close>

function convert_quads ::
  "nat \<Rightarrow> uint8 list \<Rightarrow> uint16 list \<Rightarrow> nat \<Rightarrow> nat \<Rightarrow> nat \<Rightarrow> nat \<Rightarrow> uint16 list
     \<Rightarrow> nat \<times> nat \<times> nat \<times> nat \<times> uint16 list" where
  "convert_quads w src local_palette x si d0 d1 out =
     (if x + 3 < w then
        let src4 = read_u32 src si;
            c0 = palette_at local_palette (src4 AND 0xFF);
            c1 = palette_at local_palette (drop_bit 8 src4 AND 0xFF);
            c2 = palette_at local_palette (drop_bit 16 src4 AND 0xFF);
            c3 = palette_at local_palette (drop_bit 24 src4 AND 0xFF);
            out0 = out[d0 := c0, d0 + 1 := c0, d0 + 2 := c1, d0 + 3 := c1,
                       d0 + 4 := c2, d0 + 5 := c2, d0 + 6 := c3, d0 + 7 := c3];
            out1 = out0[d1 := c0, d1 + 1 := c0, d1 + 2 := c1, d1 + 3 := c1,
                        d1 + 4 := c2, d1 + 5 := c2, d1 + 6 := c3, d1 + 7 := c3]
        in convert_quads w src local_palette (x + 4) (si + 4) (d0 + 8) (d1 + 8) out1
      else (x, si, d0, d1, out))"
  by pat_completeness auto
termination
  by (relation "measure (\<lambda>(w, src, local_palette, x, si, d0, d1, out). w - x)") auto

declare convert_quads.simps [simp del]

text \<open>Second loop: the remaining pixels one at a time.\<close>

function convert_rest ::
  "nat \<Rightarrow> uint8 list \<Rightarrow> uint16 list \<Rightarrow> nat \<Rightarrow> nat \<Rightarrow> nat \<Rightarrow> nat \<Rightarrow> uint16 list
     \<Rightarrow> nat \<times> nat \<times> nat \<times> nat \<times> uint16 list" where
  "convert_rest w src local_palette x si d0 d1 out =
     (if x < w then
        let c = palette_at local_palette (ucast (src ! si));
            out0 = out[d0 := c, d0 + 1 := c];
            out1 = out0[d1 := c, d1 + 1 := c]
        in convert_rest w src local_palette (x + 1) (si + 1) (d0 + 2) (d1 + 2) out1
      else (x, si, d0, d1, out))"
  by pat_completeness auto
termination
  by (relation "measure (\<lambda>(w, src, local_palette, x, si, d0, d1, out). w - x)") auto

declare convert_rest.simps [simp del]

text \<open>One source row: both loops; returns the advanced source pointer and the output.\<close>

definition convert_row ::
  "nat \<Rightarrow> uint8 list \<Rightarrow> uint16 list \<Rightarrow> nat \<Rightarrow> nat \<Rightarrow> nat \<Rightarrow> uint16 list
     \<Rightarrow> nat \<times> uint16 list" where
  "convert_row w src local_palette si d0 d1 out =
     (case convert_quads w src local_palette 0 si d0 d1 out of
        (x, si1, d0', d1', out1) \<Rightarrow>
          (case convert_rest w src local_palette x si1 d0' d1' out1 of
             (x', si2, d0'', d1'', out2) \<Rightarrow> (si2, out2)))"

text \<open>
  \<^verbatim>\<open>renderTileToBuffer\<close>, rows \<open>row..TILE_HEIGHT-1\<close>; \<open>outp\<close> is the pointer \<^verbatim>\<open>out\<close>.
  The source pointer is computed anew for every row.
\<close>

function renderTileToBuffer_rows ::
  "uint8 list \<Rightarrow> nat \<Rightarrow> nat \<Rightarrow> uint16 list \<Rightarrow> nat \<Rightarrow> nat \<Rightarrow> uint16 list \<Rightarrow> uint16 list" where
  "renderTileToBuffer_rows src_buffer src_start_x src_start_y local_palette row outp out =
     (if row < TILE_HEIGHT then
        let tile_pixel_width = TILE_WIDTH * PIXEL_SCALE;
            src_y = src_start_y + row;
            si = src_y * MAC_SCREEN_WIDTH + src_start_x;
            d0 = outp;
            d1 = outp + tile_pixel_width;
            out' = snd (convert_row TILE_WIDTH src_buffer local_palette si d0 d1 out)
        in renderTileToBuffer_rows src_buffer src_start_x src_start_y local_palette
             (row + 1) (outp + tile_pixel_width * 2) out'
      else out)"
  by pat_completeness auto
termination
  by (relation "measure (\<lambda>(src_buffer, sx, sy, local_palette, row, outp, out). TILE_HEIGHT - row)")
     auto

declare renderTileToBuffer_rows.simps [simp del]

definition renderTileToBuffer ::
  "uint8 list \<Rightarrow> nat \<Rightarrow> nat \<Rightarrow> uint16 list \<Rightarrow> uint16 list \<Rightarrow> uint16 list" where
  "renderTileToBuffer src_buffer tile_x tile_y local_palette out_buffer =
     (let src_start_x = tile_x * TILE_WIDTH;
          src_start_y = tile_y * TILE_HEIGHT
      in renderTileToBuffer_rows src_buffer src_start_x src_start_y local_palette 0 0 out_buffer)"

text \<open>\<^verbatim>\<open>memcpy(dst + di, src + si, n)\<close>, byte by byte.\<close>

fun memcpy :: "uint8 list \<Rightarrow> nat \<Rightarrow> uint8 list \<Rightarrow> nat \<Rightarrow> nat \<Rightarrow> uint8 list" where
  "memcpy dst di src si 0 = dst"
| "memcpy dst di src si (Suc n) = memcpy (dst[di := src ! si]) (Suc di) src (Suc si) n"

text \<open>\<^verbatim>\<open>snapshotTile\<close>, rows \<open>row..TILE_HEIGHT-1\<close>; \<open>dst\<close> is the pointer into the snapshot.\<close>

function snapshotTile_rows ::
  "uint8 list \<Rightarrow> nat \<Rightarrow> nat \<Rightarrow> nat \<Rightarrow> nat \<Rightarrow> uint8 list \<Rightarrow> uint8 list" where
  "snapshotTile_rows src_buffer src_start_x src_start_y row dst snapshot =
     (if row < TILE_HEIGHT then
        let si = (src_start_y + row) * MAC_SCREEN_WIDTH + src_start_x
        in snapshotTile_rows src_buffer src_start_x src_start_y (row + 1) (dst + TILE_WIDTH)
             (memcpy snapshot dst src_buffer si TILE_WIDTH)
      else snapshot)"
  by pat_completeness auto
termination
  by (relation "measure (\<lambda>(src_buffer, sx, sy, row, dst, snapshot). TILE_HEIGHT - row)") auto

declare snapshotTile_rows.simps [simp del]

definition snapshotTile :: "uint8 list \<Rightarrow> nat \<Rightarrow> nat \<Rightarrow> uint8 list \<Rightarrow> uint8 list" where
  "snapshotTile src_buffer tile_x tile_y snapshot =
     (let src_start_x = tile_x * TILE_WIDTH;
          src_start_y = tile_y * TILE_HEIGHT
      in snapshotTile_rows src_buffer src_start_x src_start_y 0 0 snapshot)"

text \<open>
  \<^verbatim>\<open>renderTileFromSnapshot\<close>, rows \<open>row..TILE_HEIGHT-1\<close>. Here the source pointer
  \<open>si\<close> is set once and only advanced by the inner loops.
\<close>

function renderTileFromSnapshot_rows ::
  "uint8 list \<Rightarrow> uint16 list \<Rightarrow> nat \<Rightarrow> nat \<Rightarrow> nat \<Rightarrow> uint16 list \<Rightarrow> uint16 list" where
  "renderTileFromSnapshot_rows snapshot local_palette row si outp out =
     (if row < TILE_HEIGHT then
        let tile_pixel_width = TILE_WIDTH * PIXEL_SCALE;
            d0 = outp;
            d1 = outp + tile_pixel_width
        in (case convert_row TILE_WIDTH snapshot local_palette si d0 d1 out of
              (si', out') \<Rightarrow>
                renderTileFromSnapshot_rows snapshot local_palette (row + 1) si'
                  (outp + tile_pixel_width * 2) out')
      else out)"
  by pat_completeness auto
termination
  by (relation "measure (\<lambda>(snapshot, local_palette, row, si, outp, out). TILE_HEIGHT - row)") auto

declare renderTileFromSnapshot_rows.simps [simp del]

definition renderTileFromSnapshot :: "uint8 list \<Rightarrow> uint16 list \<Rightarrow> uint16 list \<Rightarrow> uint16 list" where
  "renderTileFromSnapshot snapshot local_palette out_buffer =
     renderTileFromSnapshot_rows snapshot local_palette 0 0 0 out_buffer"
section \<open>Partial and full rendering\<close>

text \<open>
  \<^verbatim>\<open>renderAndPushDirtyTiles\<close>: the inner loop over tile columns \<open>tx..TILES_X-1\<close> of
  tile row \<open>ty\<close>. A dirty tile is copied to \<open>tile_snapshot\<close>, converted into
  \<open>tile_buffer\<close> and pushed to its 80 by 80 window of the display.
\<close>

function push_dirty_tiles_tx ::
  "uint8 list \<Rightarrow> uint16 list \<Rightarrow> nat \<Rightarrow> nat \<Rightarrow> video_state \<Rightarrow> video_state" where
  "push_dirty_tiles_tx src_buffer local_palette ty tx s =
     (if tx < TILES_X then
        let tile_idx = ty * TILES_X + tx
        in if \<not> isTileDirty s tile_idx
           then push_dirty_tiles_tx src_buffer local_palette ty (tx + 1) s
           else
             let tile_pixel_width = TILE_WIDTH * PIXEL_SCALE;
                 tile_pixel_height = TILE_HEIGHT * PIXEL_SCALE;
                 snap = snapshotTile src_buffer tx ty (tile_snapshot s);
                 buf = renderTileFromSnapshot snap local_palette (tile_buffer s);
                 dst_start_x = tx * tile_pixel_width;
                 dst_start_y = ty * tile_pixel_height;
                 s' = s\<lparr>tile_snapshot := snap, tile_buffer := buf,
                        display := display s @
                          [SetAddrWindow dst_start_x dst_start_y tile_pixel_width tile_pixel_height,
                           WritePixels (take (tile_pixel_width * tile_pixel_height) buf)]\<rparr>
             in push_dirty_tiles_tx src_buffer local_palette ty (tx + 1) s'
      else s)"
  by pat_completeness auto
termination
  by (relation "measure (\<lambda>(src_buffer, local_palette, ty, tx, s). TILES_X - tx)") auto

declare push_dirty_tiles_tx.simps [simp del]

function push_dirty_tiles_ty ::
  "uint8 list \<Rightarrow> uint16 list \<Rightarrow> nat \<Rightarrow> video_state \<Rightarrow> video_state" where
  "push_dirty_tiles_ty src_buffer local_palette ty s =
     (if ty < TILES_Y then
        push_dirty_tiles_ty src_buffer local_palette (ty + 1)
          (push_dirty_tiles_tx src_buffer local_palette ty 0 s)
      else s)"
  by pat_completeness auto
termination
  by (relation "measure (\<lambda>(src_buffer, local_palette, ty, s). TILES_Y - ty)") auto

declare push_dirty_tiles_ty.simps [simp del]

definition renderAndPushDirtyTiles ::
  "uint8 list \<Rightarrow> uint16 list \<Rightarrow> video_state \<Rightarrow> video_state" where
  "renderAndPushDirtyTiles src_buffer local_palette s =
     (let s0 = s\<lparr>display := display s @ [StartWrite]\<rparr>;
          s1 = push_dirty_tiles_ty src_buffer local_palette 0 s0
      in s1\<lparr>display := display s1 @ [EndWrite]\<rparr>)"

text \<open>
  \<^verbatim>\<open>renderFrameToDSI\<close>, source rows \<open>y..MAC_SCREEN_HEIGHT-1\<close>; the source pointer runs
  through the whole buffer, the two destination rows are computed from \<open>y\<close>.
\<close>

function renderFrame_rows ::
  "uint8 list \<Rightarrow> uint16 list \<Rightarrow> nat \<Rightarrow> nat \<Rightarrow> uint16 list \<Rightarrow> uint16 list" where
  "renderFrame_rows src local_palette y si fb =
     (if y < MAC_SCREEN_HEIGHT then
        let d0 = (y * 2) * DISPLAY_WIDTH;
            d1 = d0 + DISPLAY_WIDTH
        in (case convert_row MAC_SCREEN_WIDTH src local_palette si d0 d1 fb of
              (si', fb') \<Rightarrow> renderFrame_rows src local_palette (y + 1) si' fb')
      else fb)"
  by pat_completeness auto
termination
  by (relation "measure (\<lambda>(src, local_palette, y, si, fb). MAC_SCREEN_HEIGHT - y)") auto

declare renderFrame_rows.simps [simp del]

text \<open>
  \<^verbatim>\<open>renderFrameToDSI(src_buffer)\<close>: nothing happens when either pointer is
  \<^verbatim>\<open>NULL\<close>; the palette is copied first (256 entries) and the cache flush is empty.
\<close>

definition renderFrameToDSI :: "uint8 list option \<Rightarrow> video_state \<Rightarrow> video_state" where
  "renderFrameToDSI src_buffer s =
     (case src_buffer of
        None \<Rightarrow> s
      | Some src \<Rightarrow>
          (case dsi_framebuffer s of
             None \<Rightarrow> s
           | Some fb \<Rightarrow>
               let local_palette = take 256 (palette_rgb565 s)
               in s\<lparr>dsi_framebuffer := Some (renderFrame_rows src local_palette 0 0 fb)\<rparr>))"

definition pushFramebufferToDisplay :: "video_state \<Rightarrow> video_state" where
  "pushFramebufferToDisplay s =
     (case dsi_framebuffer s of
        None \<Rightarrow> s
      | Some fb \<Rightarrow>
          s\<lparr>display := display s @
              [StartWrite, SetAddrWindow 0 0 DISPLAY_WIDTH DISPLAY_HEIGHT,
               WritePixels (take (DISPLAY_WIDTH * DISPLAY_HEIGHT) fb), EndWrite]\<rparr>)"

section \<open>Frame comparison fallback\<close>

text \<open>
  \<^verbatim>\<open>detectDirtyTiles\<close>: the comparison of one tile row, 32-bit word by word, from word
  \<open>w\<close> on; true at the first difference.
\<close>

function words_differ :: "uint8 list \<Rightarrow> uint8 list \<Rightarrow> nat \<Rightarrow> nat \<Rightarrow> bool" where
  "words_differ current previous offset w =
     (if w < TILE_WIDTH div 4 then
        (if read_u32 current (offset + 4 * w) \<noteq> read_u32 previous (offset + 4 * w) then True
         else words_differ current previous offset (w + 1))
      else False)"
  by pat_completeness auto
termination
  by (relation "measure (\<lambda>(current, previous, offset, w). TILE_WIDTH div 4 - w)") auto

declare words_differ.simps [simp del]

function tile_rows_differ ::
  "uint8 list \<Rightarrow> uint8 list \<Rightarrow> nat \<Rightarrow> nat \<Rightarrow> nat \<Rightarrow> bool \<Rightarrow> bool" where
  "tile_rows_differ current previous tx ty row is_dirty =
     (if row < TILE_HEIGHT then
        (if is_dirty then is_dirty
         else let y = ty * TILE_HEIGHT + row;
                  offset = y * MAC_SCREEN_WIDTH + tx * TILE_WIDTH
              in tile_rows_differ current previous tx ty (row + 1)
                   (words_differ current previous offset 0))
      else is_dirty)"
  by pat_completeness auto
termination
  by (relation "measure (\<lambda>(current, previous, tx, ty, row, is_dirty). TILE_HEIGHT - row)") auto

declare tile_rows_differ.simps [simp del]

function detect_tx ::
  "uint8 list \<Rightarrow> uint8 list \<Rightarrow> nat \<Rightarrow> nat \<Rightarrow> int \<Rightarrow> uint32 list \<Rightarrow> int \<times> uint32 list" where
  "detect_tx current previous ty tx count bm =
     (if tx < TILES_X then
        let tile_idx = ty * TILES_X + tx
        in if tile_rows_differ current previous tx ty 0 False
           then detect_tx current previous ty (tx + 1) (count + 1)
                  (bm[tile_idx div 32 := (bm ! (tile_idx div 32)) OR push_bit (tile_idx mod 32) 1])
           else detect_tx current previous ty (tx + 1) count bm
      else (count, bm))"
  by pat_completeness auto
termination
  by (relation "measure (\<lambda>(current, previous, ty, tx, count, bm). TILES_X - tx)") auto

declare detect_tx.simps [simp del]

function detect_ty ::
  "uint8 list \<Rightarrow> uint8 list \<Rightarrow> nat \<Rightarrow> int \<Rightarrow> uint32 list \<Rightarrow> int \<times> uint32 list" where
  "detect_ty current previous ty count bm =
     (if ty < TILES_Y then
        (case detect_tx current previous ty 0 count bm of
           (count', bm') \<Rightarrow> detect_ty current previous (ty + 1) count' bm')
      else (count, bm))"
  by pat_completeness auto
termination
  by (relation "measure (\<lambda>(current, previous, ty, count, bm). TILES_Y - ty)") auto

declare detect_ty.simps [simp del]

definition detectDirtyTiles :: "uint8 list \<Rightarrow> uint8 list \<Rightarrow> video_state \<Rightarrow> int \<times> video_state" where
  "detectDirtyTiles current previous s =
     (case detect_ty current previous 0 0 (replicate BITMAP_WORDS 0) of
        (count, bm) \<Rightarrow> (count, s\<lparr>dirty_tiles := bm\<rparr>))"

section \<open>Palette and frame signal\<close>

function set_palette_loop :: "uint8 list \<Rightarrow> int \<Rightarrow> nat \<Rightarrow> uint16 list \<Rightarrow> uint16 list" where
  "set_palette_loop pal num i palette =
     (if int i < num \<and> i < 256 then
        let r = pal ! (i * 3 + 0);
            g = pal ! (i * 3 + 1);
            b = pal ! (i * 3 + 2)
        in set_palette_loop pal num (i + 1) (palette[i := rgb888_to_rgb565 r g b])
      else palette)"
  by pat_completeness auto
termination
  by (relation "measure (\<lambda>(pal, num, i, palette). 256 - i)") auto

declare set_palette_loop.simps [simp del]

text \<open>\<^verbatim>\<open>ESP32_monitor_desc::set_palette(pal, num)\<close>; it returns nothing and cannot fail.\<close>

definition set_palette :: "uint8 list \<Rightarrow> int \<Rightarrow> video_state \<Rightarrow> video_state" where
  "set_palette pal num s =
     (let s1 = s\<lparr>palette_rgb565 := set_palette_loop pal num 0 (palette_rgb565 s)\<rparr>
      in s1\<lparr>force_full_update := True\<rparr>)"

text \<open>
  \<^verbatim>\<open>VideoSignalFrameReady\<close>: \<^verbatim>\<open>xTaskNotifyGive\<close> increments the notification value of
  the video task.
\<close>

definition VideoSignalFrameReady :: "video_state \<Rightarrow> video_state" where
  "VideoSignalFrameReady s =
     (let s1 = s\<lparr>frame_ready := True\<rparr>
      in if video_task_handle s1 then s1\<lparr>notify_value := notify_value s1 + 1\<rparr> else s1)"
section \<open>The render task\<close>

text \<open>
  What one iteration of the loop of \<^verbatim>\<open>videoRenderTaskOptimized\<close> reads from its
  environment: the tick count, \<^verbatim>\<open>millis()\<close> at the performance report, and the four
  differences \<^verbatim>\<open>t1 - t0\<close> of \<^verbatim>\<open>micros()\<close> readings.
\<close>

record timing =
  now_ticks :: uint32
  now_ms :: uint32
  detect_us :: uint32
  snapshot_us :: uint32
  render_us :: uint32
  push_us :: uint32

text \<open>
  What an iteration did. \<open>Fault\<close> stands for the dereference of a \<^verbatim>\<open>NULL\<close> buffer
  pointer, which the partial update and the comparison fallback do not guard against.
\<close>

datatype step_outcome = Abandoned | FullUpdate | PartialUpdate | Skipped | Fault

definition PERF_REPORT_INTERVAL_MS :: uint32 where [simp]: "PERF_REPORT_INTERVAL_MS = 5000"

definition reportVideoPerfStats :: "uint32 \<Rightarrow> video_state \<Rightarrow> video_state" where
  "reportVideoPerfStats now s =
     (if now - perf_last_report_ms s \<ge> PERF_REPORT_INTERVAL_MS then
        s\<lparr>perf_last_report_ms := now,
          perf_snapshot_us := 0, perf_detect_us := 0, perf_render_us := 0, perf_push_us := 0,
          perf_frame_count := 0, perf_partial_count := 0, perf_full_count := 0,
          perf_skip_count := 0\<rparr>
      else s)"

text \<open>\<^verbatim>\<open>(TOTAL_TILES * DIRTY_THRESHOLD_PERCENT) / 100\<close> in \<^verbatim>\<open>int\<close>.\<close>

definition dirty_threshold :: int where
  "dirty_threshold = (int TOTAL_TILES * int DIRTY_THRESHOLD_PERCENT) div 100"

definition takeFrameSnapshot :: "video_state \<Rightarrow> video_state option" where
  "takeFrameSnapshot s =
     (case (snapshot_buffer s, mac_frame_buffer s) of
        (Some snap, Some fb) \<Rightarrow>
          Some (s\<lparr>snapshot_buffer := Some (memcpy snap 0 fb 0 (unat (frame_buffer_size s)))\<rparr>)
      | _ \<Rightarrow> None)"

definition swapBuffers :: "video_state \<Rightarrow> video_state" where
  "swapBuffers s =
     (let temp = compare_buffer s;
          s1 = s\<lparr>compare_buffer := snapshot_buffer s\<rparr>
      in s1\<lparr>snapshot_buffer := temp\<rparr>)"

text \<open>
  The dirty-detection part of the iteration: with the forced-full flag set nothing is
  drained; otherwise the write-time bitmap is drained, or, with write-time tracking off,
  the frame is compared with the previous one. The result is \<^verbatim>\<open>do_full_update\<close>.
\<close>

definition detect_phase :: "timing \<Rightarrow> video_state \<Rightarrow> (bool \<times> video_state) option" where
  "detect_phase tm s =
     (let do_full_update = force_full_update s
      in if \<not> do_full_update \<and> use_write_dirty_tracking s then
           (case collectWriteDirtyTiles s of
              (count, s1) \<Rightarrow>
                let s2 = s1\<lparr>dirty_tile_count := count\<rparr>;
                    s3 = s2\<lparr>perf_detect_us := perf_detect_us s2 + detect_us tm\<rparr>
                in Some (dirty_tile_count s3 > dirty_threshold, s3))
         else if \<not> do_full_update then
           (case takeFrameSnapshot s of
              None \<Rightarrow> None
            | Some s1 \<Rightarrow>
                let s2 = s1\<lparr>perf_snapshot_us := perf_snapshot_us s1 + snapshot_us tm\<rparr>
                in (case (snapshot_buffer s2, compare_buffer s2) of
                      (Some cur, Some prev) \<Rightarrow>
                        (case detectDirtyTiles cur prev s2 of
                           (count, s3) \<Rightarrow>
                             let s4 = s3\<lparr>dirty_tile_count := count\<rparr>;
                                 s5 = s4\<lparr>perf_detect_us := perf_detect_us s4 + detect_us tm\<rparr>
                             in Some (dirty_tile_count s5 > dirty_threshold, swapBuffers s5))
                    | _ \<Rightarrow> None))
         else Some (do_full_update, s))"

text \<open>The render part: full update, partial update or nothing.\<close>

definition render_phase ::
  "timing \<Rightarrow> uint16 list \<Rightarrow> bool \<Rightarrow> video_state \<Rightarrow> step_outcome \<times> video_state" where
  "render_phase tm local_palette do_full_update s =
     (if do_full_update then
        let s1 = renderFrameToDSI (mac_frame_buffer s) s;
            s2 = s1\<lparr>perf_render_us := perf_render_us s1 + render_us tm\<rparr>;
            s3 = pushFramebufferToDisplay s2;
            s4 = s3\<lparr>perf_push_us := perf_push_us s3 + push_us tm\<rparr>;
            s5 = s4\<lparr>force_full_update := False\<rparr>
        in (FullUpdate, s5\<lparr>perf_full_count := perf_full_count s5 + 1\<rparr>)
      else if dirty_tile_count s > 0 then
        (case mac_frame_buffer s of
           None \<Rightarrow> (Fault, s)
         | Some src \<Rightarrow>
             let s1 = renderAndPushDirtyTiles src local_palette s;
                 s2 = s1\<lparr>perf_render_us := perf_render_us s1 + render_us tm\<rparr>
             in (PartialUpdate, s2\<lparr>perf_partial_count := perf_partial_count s2 + 1\<rparr>))
      else (Skipped, s\<lparr>perf_skip_count := perf_skip_count s + 1\<rparr>))"

text \<open>
  The iteration from the palette copy to \<^verbatim>\<open>last_frame_ticks = now\<close>, that is without
  the wait, the rate check and the performance report.
\<close>

definition render_frame :: "timing \<Rightarrow> video_state \<Rightarrow> step_outcome \<times> video_state" where
  "render_frame tm s =
     (let local_palette = take 256 (palette_rgb565 s)
      in case detect_phase tm s of
           None \<Rightarrow> (Fault, s)
         | Some (do_full_update, s1) \<Rightarrow>
             (case render_phase tm local_palette do_full_update s1 of
                (Fault, s2) \<Rightarrow> (Fault, s2)
              | (outcome, s2) \<Rightarrow>
                  let s3 = s2\<lparr>perf_frame_count := perf_frame_count s2 + 1\<rparr>
                  in (outcome, s3\<lparr>last_frame_ticks := now_ticks tm\<rparr>)))"

text \<open>
  One iteration of \<^verbatim>\<open>while (video_task_running)\<close>, from the return of
  \<^verbatim>\<open>ulTaskNotifyTake(pdTRUE, min_frame_ticks)\<close>, which hands over the notification
  value and clears it. \<open>min_frame_ticks\<close> is \<^verbatim>\<open>pdMS_TO_TICKS(67)\<close>, a macro of
  FreeRTOS: 67 at a tick rate of 1000 Hz.
\<close>

definition video_task_step :: "uint32 \<Rightarrow> timing \<Rightarrow> video_state \<Rightarrow> step_outcome \<times> video_state" where
  "video_task_step min_frame_ticks tm s =
     (let notification = notify_value s;
          s1 = s\<lparr>notify_value := 0\<rparr>;
          should_render = (notification > 0 \<or> frame_ready s1);
          s2 = s1\<lparr>frame_ready := False\<rparr>;
          now = now_ticks tm;
          elapsed = now - last_frame_ticks s2
      in if should_render \<and> elapsed < min_frame_ticks then (Abandoned, s2)
         else (case render_frame tm s2 of
                 (Fault, s3) \<Rightarrow> (Fault, s3)
               | (outcome, s3) \<Rightarrow> (outcome, reportVideoPerfStats (now_ms tm) s3)))"

section \<open>Initialisation\<close>

text \<open>
  What \<^verbatim>\<open>VideoInit\<close> gets from its environment: whether each \<^verbatim>\<open>ps_malloc\<close> succeeds
  (in call order: Mac framebuffer, snapshot buffer, compare buffer, display framebuffer),
  whether \<^verbatim>\<open>M5.Display.getPanel()\<close> returns a panel, whether the task is created, and
  the contents of freshly allocated memory.
\<close>

record init_env =
  mac_alloc_ok :: bool
  snapshot_alloc_ok :: bool
  compare_alloc_ok :: bool
  panel_ok :: bool
  dsi_alloc_ok :: bool
  task_create_ok :: bool
  fresh_byte :: "nat \<Rightarrow> uint8"
  fresh_pixel :: "nat \<Rightarrow> uint16"

definition ps_malloc_bytes ::
  "bool \<Rightarrow> (nat \<Rightarrow> uint8) \<Rightarrow> nat \<Rightarrow> video_state \<Rightarrow> uint8 list option \<times> video_state" where
  "ps_malloc_bytes ok fresh n s =
     (if ok then (Some (map fresh [0..<n]), s\<lparr>heap_live := heap_live s + 1\<rparr>) else (None, s))"

text \<open>\<^verbatim>\<open>free(p)\<close> of a block that is live.\<close>

definition free_block :: "video_state \<Rightarrow> video_state" where
  "free_block s = s\<lparr>heap_live := heap_live s - 1\<rparr>"

text \<open>\<^verbatim>\<open>getDSIFramebuffer\<close>: \<^verbatim>\<open>NULL\<close> without a panel or when the allocation fails.\<close>

definition getDSIFramebuffer :: "init_env \<Rightarrow> video_state \<Rightarrow> uint16 list option \<times> video_state" where
  "getDSIFramebuffer env s =
     (if \<not> panel_ok env then (None, s)
      else if dsi_alloc_ok env
        then (Some (map (fresh_pixel env) [0..<DISPLAY_WIDTH * DISPLAY_HEIGHT]),
              s\<lparr>heap_live := heap_live s + 1\<rparr>)
        else (None, s))"

text \<open>
  \<^verbatim>\<open>VideoInit\<close>. The video mode and the monitor descriptor it sets up at the end belong
  to the emulator core and are not part of the state modelled here.
\<close>

definition VideoInit :: "init_env \<Rightarrow> video_state \<Rightarrow> bool \<times> video_state" where
  "VideoInit env s =
     (let s0 = s\<lparr>frame_buffer_size := word_of_nat (MAC_SCREEN_WIDTH * MAC_SCREEN_HEIGHT)\<rparr>;
          n = unat (frame_buffer_size s0)
      in case ps_malloc_bytes (mac_alloc_ok env) (fresh_byte env) n s0 of (mac, s1) \<Rightarrow>
         let s2 = s1\<lparr>mac_frame_buffer := mac\<rparr>
         in if mac_frame_buffer s2 = None then (False, s2)
            else
              let s3 = s2\<lparr>mac_frame_buffer := Some (replicate n 0x80)\<rparr>
              in case ps_malloc_bytes (snapshot_alloc_ok env) (fresh_byte env) n s3 of (snap, s4) \<Rightarrow>
                 case ps_malloc_bytes (compare_alloc_ok env) (fresh_byte env) n
                        (s4\<lparr>snapshot_buffer := snap\<rparr>) of (cmp, s5) \<Rightarrow>
                 let s6 = s5\<lparr>compare_buffer := cmp\<rparr>
                 in if snapshot_buffer s6 = None \<or> compare_buffer s6 = None then
                      let s7 = (if snapshot_buffer s6 \<noteq> None
                                then (free_block s6)\<lparr>snapshot_buffer := None\<rparr> else s6);
                          s8 = (if compare_buffer s7 \<noteq> None
                                then (free_block s7)\<lparr>compare_buffer := None\<rparr> else s7);
                          s9 = free_block s8
                      in (False, s9\<lparr>mac_frame_buffer := None\<rparr>)
                    else
                      let s7 = s6\<lparr>snapshot_buffer := Some (replicate n 0x80),
                                  compare_buffer := Some (replicate n 0x80),
                                  dirty_tiles := replicate BITMAP_WORDS 0,
                                  force_full_update := True\<rparr>
                      in case getDSIFramebuffer env s7 of (fb, s8) \<Rightarrow>
                         let s9 = s8\<lparr>dsi_framebuffer := fb\<rparr>
                         in if dsi_framebuffer s9 = None then
                              let s10 = free_block s9
                              in (False, s10\<lparr>mac_frame_buffer := None\<rparr>)
                            else
                              let gray565 = rgb888_to_rgb565 64 64 64;
                                  s10 = s9\<lparr>dsi_framebuffer :=
                                          Some (replicate (DISPLAY_WIDTH * DISPLAY_HEIGHT) gray565)\<rparr>;
                                  s11 = pushFramebufferToDisplay s10;
                                  s12 = s11\<lparr>palette_rgb565 :=
                                          map (\<lambda>i. let gray = 255 - word_of_nat i
                                                    in rgb888_to_rgb565 gray gray gray) [0..<256]\<rparr>;
                                  s13 = s12\<lparr>video_task_running := True\<rparr>
                              in (True, if task_create_ok env
                                        then s13\<lparr>video_task_handle := True\<rparr> else s13))"

text \<open>The variables as their initialisers leave them at program start.\<close>

definition initial_state :: video_state where
  "initial_state =
     \<lparr>mac_frame_buffer = None, frame_buffer_size = 0, dsi_framebuffer = None,
      frame_ready = False, video_task_handle = False, video_task_running = False,
      palette_rgb565 = replicate 256 0, snapshot_buffer = None, compare_buffer = None,
      dirty_tiles = replicate BITMAP_WORDS 0, write_dirty_tiles = replicate BITMAP_WORDS 0,
      force_full_update = True, dirty_tile_count = 0, use_write_dirty_tracking = True,
      perf_snapshot_us = 0, perf_detect_us = 0, perf_render_us = 0, perf_push_us = 0,
      perf_frame_count = 0, perf_partial_count = 0, perf_full_count = 0, perf_skip_count = 0,
      perf_last_report_ms = 0, notify_value = 0, last_frame_ticks = 0,
      tile_snapshot = replicate (TILE_WIDTH * TILE_HEIGHT) 0,
      tile_buffer = replicate (TILE_WIDTH * PIXEL_SCALE * TILE_HEIGHT * PIXEL_SCALE) 0,
      display = [], heap_live = 0\<rparr>"

section \<open>Sequences of tracker calls\<close>

text \<open>The set of tile indices whose bit is set in a bitmap of \<open>BITMAP_WORDS\<close> words.\<close>

definition bitmap_tiles :: "uint32 list \<Rightarrow> nat set" where
  "bitmap_tiles bm = Set.filter (bitmap_test bm) {0..<BITMAP_WORDS * 32}"

text \<open>
  A call of the producer (\<^verbatim>\<open>VideoMarkDirtyOffset\<close>, \<^verbatim>\<open>VideoMarkDirtyRange\<close>) or of the
  consumer (\<^verbatim>\<open>collectWriteDirtyTiles\<close>), taken as a unit, and the run of a sequence of
  them; every drain reports its count and the render bitmap it leaves.
\<close>

datatype tracker_call = MarkDirtyOffset uint32 | MarkDirtyRange uint32 uint32 | Drain

fun run_calls :: "tracker_call list \<Rightarrow> video_state \<Rightarrow> (int \<times> uint32 list) list \<times> video_state" where
  "run_calls [] s = ([], s)"
| "run_calls (MarkDirtyOffset offset # cs) s = run_calls cs (VideoMarkDirtyOffset offset s)"
| "run_calls (MarkDirtyRange offset sz # cs) s = run_calls cs (VideoMarkDirtyRange offset sz s)"
| "run_calls (Drain # cs) s =
     (case collectWriteDirtyTiles s of
        (count, s1) \<Rightarrow>
          (case run_calls cs s1 of
             (reports, s2) \<Rightarrow> ((count, dirty_tiles s1) # reports, s2)))"

text \<open>
  The specification's reading of the same sequence. A mark call marks the tile of the
  byte at \<open>offset\<close> and, for a range of more than one byte after clamping, the tile of
  its last byte, provided the bytes lie in the framebuffer; a drain reports the tiles
  marked since the drain before it and starts again from none.
\<close>

fun call_tiles :: "uint32 \<Rightarrow> tracker_call \<Rightarrow> nat set" where
  "call_tiles fbsize (MarkDirtyOffset offset) =
     (if offset < fbsize then {offset_tile_idx offset} else {})"
| "call_tiles fbsize (MarkDirtyRange offset sz) =
     (if offset < fbsize then
        {offset_tile_idx offset} \<union>
        (let sz' = clamp_size fbsize offset sz
         in if 1 < sz' \<and> offset + sz' - 1 < fbsize then {offset_tile_idx (offset + sz' - 1)}
            else {})
      else {})"
| "call_tiles fbsize Drain = {}"

fun drained_sets :: "uint32 \<Rightarrow> nat set \<Rightarrow> tracker_call list \<Rightarrow> nat set list" where
  "drained_sets fbsize pending [] = []"
| "drained_sets fbsize pending (Drain # cs) = pending # drained_sets fbsize {} cs"
| "drained_sets fbsize pending (c # cs) = drained_sets fbsize (pending \<union> call_tiles fbsize c) cs"

section \<open>What a converted row holds\<close>

text \<open>
  The contents of an output buffer at index \<open>j\<close> after \<open>n\<close> source pixels from
  \<open>src + si\<close> were converted to the two output rows that start at \<open>d0\<close> and \<open>d1\<close>:
  each source pixel, looked up in the palette, twice in each row; everything else as in
  \<open>out\<close>. Used to state what the conversion loops compute.
\<close>

definition scaled_row ::
  "uint8 list \<Rightarrow> uint16 list \<Rightarrow> nat \<Rightarrow> nat \<Rightarrow> nat \<Rightarrow> nat \<Rightarrow> uint16 list \<Rightarrow> nat \<Rightarrow> uint16" where
  "scaled_row src pal si d0 d1 n out j =
     (if d0 \<le> j \<and> j < d0 + 2 * n then pal ! unat (src ! (si + (j - d0) div 2))
      else if d1 \<le> j \<and> j < d1 + 2 * n then pal ! unat (src ! (si + (j - d1) div 2))
      else out ! j)"

section \<open>A palette change while a full update runs\<close>

text \<open>
  The render task runs on core 0 and \<^verbatim>\<open>set_palette\<close> is called by the emulation on
  core 1; of the full-update branch (lines 1035 to 1049) only the copy of the palette
  inside \<^verbatim>\<open>renderFrameToDSI\<close> is made under the spinlock, so the branch is not one
  atomic action. \<open>full_update_finish\<close> is the branch from the return of
  \<^verbatim>\<open>renderFrameToDSI\<close> on: the render time, the push, the push time,
  \<^verbatim>\<open>force_full_update = false\<close> and the counter of full updates.
\<close>

definition full_update_finish :: "timing \<Rightarrow> video_state \<Rightarrow> video_state" where
  "full_update_finish tm s1 =
     (let s2 = s1\<lparr>perf_render_us := perf_render_us s1 + render_us tm\<rparr>;
          s3 = pushFramebufferToDisplay s2;
          s4 = s3\<lparr>perf_push_us := perf_push_us s3 + push_us tm\<rparr>;
          s5 = s4\<lparr>force_full_update := False\<rparr>
      in s5\<lparr>perf_full_count := perf_full_count s5 + 1\<rparr>)"

text \<open>
  An iteration that has read \<^verbatim>\<open>force_full_update\<close> as true at line 995, up to
  \<^verbatim>\<open>last_frame_ticks = now\<close>, with \<open>other_core\<close> what core 1 does to the shared variables
  between the return of \<^verbatim>\<open>renderFrameToDSI\<close> (line 1038) and line 1040. With
  \<open>other_core\<close> the identity this is \<open>render_frame\<close> on a state with the flag set
  (\<open>full_update_interleaved_alone\<close> below).
\<close>

definition full_update_interleaved ::
  "(video_state \<Rightarrow> video_state) \<Rightarrow> timing \<Rightarrow> video_state \<Rightarrow> step_outcome \<times> video_state" where
  "full_update_interleaved other_core tm s =
     (let s1 = renderFrameToDSI (mac_frame_buffer s) s;
          s2 = other_core s1;
          s3 = full_update_finish tm s2;
          s4 = s3\<lparr>perf_frame_count := perf_frame_count s3 + 1\<rparr>
      in (FullUpdate, s4\<lparr>last_frame_ticks := now_ticks tm\<rparr>))"

section \<open>Properties of the colour conversion\<close>

lemma rgb565_low_byte:
  "(ucast (rgb888_to_rgb565 r g b) :: uint8) = push_bit 3 (drop_bit 3 r) OR drop_bit 5 g"
  unfolding rgb888_to_rgb565_def
  apply (rule bit_word_eqI)
  apply (simp add: bit_simps)
  apply (auto dest: bit_imp_le_length)
  done

lemma rgb565_high_byte:
  "(ucast (drop_bit 8 (rgb888_to_rgb565 r g b)) :: uint8) =
     push_bit 5 (take_bit 3 (drop_bit 2 g)) OR drop_bit 3 b"
  unfolding rgb888_to_rgb565_def
  apply (rule bit_word_eqI)
  apply (simp add: bit_simps)
  apply (auto dest: bit_imp_le_length)
  done

lemma rgb565_is_swapped:
  "rgb888_to_rgb565 r g b = swap_bytes16 (rgb565_plain r g b)"
  unfolding rgb888_to_rgb565_def swap_bytes16_def rgb565_plain_def
  apply (rule bit_word_eqI)
  apply (simp add: bit_simps)
  apply (auto dest: bit_imp_le_length)
  done

text \<open>
  C9. The conversion of an RGB888 palette entry is the byte-swapped RGB565 packing of the
  source comment: the low byte of the result is \<open>RRRRRGGG\<close> (the five red bits in bits
  7-3, the top three bits of the six-bit green \<open>g >> 2\<close>, that is \<open>g >> 5\<close>, in bits
  2-0), the high byte is \<open>GGGBBBBB\<close> (the low three bits of the six-bit green in bits
  7-5, the five blue bits in bits 4-0); the whole value is the plain RGB565 word with its
  two bytes exchanged, and RGB (255, 0, 0) gives 0x00F8.
\<close>

theorem rgb888_to_rgb565_layout:
  "(ucast (rgb888_to_rgb565 r g b) :: uint8) = push_bit 3 (drop_bit 3 r) OR drop_bit 3 (drop_bit 2 g)
   \<and> (ucast (drop_bit 8 (rgb888_to_rgb565 r g b)) :: uint8) =
        push_bit 5 (take_bit 3 (drop_bit 2 g)) OR drop_bit 3 b
   \<and> rgb888_to_rgb565 r g b = swap_bytes16 (rgb565_plain r g b)
   \<and> rgb888_to_rgb565 255 0 0 = 0x00F8"
proof -
  have "rgb888_to_rgb565 255 0 0 = 0x00F8"
    by (simp add: rgb888_to_rgb565_def)
  then show ?thesis
    using rgb565_low_byte[of r g b] rgb565_high_byte[of r g b] rgb565_is_swapped[of r g b]
    by (simp add: drop_bit_drop_bit)
qed

section \<open>Properties of the tile grid\<close>

lemma div40_eq_iff: "(x::nat) div 40 = t \<longleftrightarrow> t * 40 \<le> x \<and> x < t * 40 + 40"
  by (auto simp: div_nat_eqI)

lemma tile_index_bound:
  assumes "x < 640" "y < 360"
  shows "tile_index x y < 144"
proof -
  from assms have "x div 40 \<le> 15" "y div 40 \<le> 8" by auto
  then have "(y div 40) * 16 + x div 40 \<le> 8 * 16 + 15"
    by (intro add_mono mult_le_mono1)
  then show ?thesis by (simp add: tile_index_def)
qed

lemma tile_pixels_iff:
  "(x, y) \<in> tile_pixels tx ty \<longleftrightarrow>
     tx * 40 \<le> x \<and> x < tx * 40 + 40 \<and> ty * 40 \<le> y \<and> y < ty * 40 + 40"
proof
  assume "(x, y) \<in> tile_pixels tx ty"
  then show "tx * 40 \<le> x \<and> x < tx * 40 + 40 \<and> ty * 40 \<le> y \<and> y < ty * 40 + 40"
    by (auto simp: tile_pixels_def)
next
  assume a: "tx * 40 \<le> x \<and> x < tx * 40 + 40 \<and> ty * 40 \<le> y \<and> y < ty * 40 + 40"
  then have "(x - tx * 40, y - ty * 40) \<in> {0..<TILE_WIDTH} \<times> {0..<TILE_HEIGHT}" by auto
  moreover have "(x, y) =
      (\<lambda>(c, r). (tx * TILE_WIDTH + c, ty * TILE_HEIGHT + r)) (x - tx * 40, y - ty * 40)"
    using a by simp
  ultimately show "(x, y) \<in> tile_pixels tx ty"
    unfolding tile_pixels_def by (rule image_eqI[rotated])
qed

lemma grid_index_unique:
  assumes "tx < 16" "tx' < 16"
  shows "ty' * 16 + tx' = ty * 16 + tx \<longleftrightarrow> tx' = tx \<and> ty' = (ty::nat)"
proof
  assume e: "ty' * 16 + tx' = ty * 16 + tx"
  then have "(ty' * 16 + tx') mod 16 = (ty * 16 + tx) mod 16" by simp
  with assms have "tx' = tx" by simp
  with e show "tx' = tx \<and> ty' = ty" by simp
qed simp

lemma tile_pixels_index:
  assumes "tx < 16" "ty < 9"
  shows "(x, y) \<in> tile_pixels tx ty \<longleftrightarrow> x < 640 \<and> y < 360 \<and> tile_index x y = ty * 16 + tx"
proof -
  have in_iff: "(x, y) \<in> tile_pixels tx ty \<longleftrightarrow> x div 40 = tx \<and> y div 40 = ty"
    unfolding tile_pixels_iff div40_eq_iff by blast
  show ?thesis
  proof
    assume m: "(x, y) \<in> tile_pixels tx ty"
    then have q: "x div 40 = tx" "y div 40 = ty" using in_iff by auto
    have "x < tx * 40 + 40" "y < ty * 40 + 40" using m tile_pixels_iff by auto
    with assms have "x < 640" "y < 360" by auto
    with q show "x < 640 \<and> y < 360 \<and> tile_index x y = ty * 16 + tx"
      by (simp add: tile_index_def)
  next
    assume r: "x < 640 \<and> y < 360 \<and> tile_index x y = ty * 16 + tx"
    then have "x div 40 < 16" by auto
    moreover from r have "(y div 40) * 16 + x div 40 = ty * 16 + tx"
      by (simp add: tile_index_def)
    ultimately have "x div 40 = tx \<and> y div 40 = ty"
      using grid_index_unique[OF assms(1), of "x div 40" "y div 40" ty] by simp
    then show "(x, y) \<in> tile_pixels tx ty" using in_iff by simp
  qed
qed

lemma tile_pixels_union:
  "(\<Union>ty\<in>{0..<TILES_Y}. \<Union>tx\<in>{0..<TILES_X}. tile_pixels tx ty)
     = {0..<MAC_SCREEN_WIDTH} \<times> {0..<MAC_SCREEN_HEIGHT}"
proof (rule set_eqI, clarify)
  fix x y :: nat
  show "(x, y) \<in> (\<Union>ty\<in>{0..<TILES_Y}. \<Union>tx\<in>{0..<TILES_X}. tile_pixels tx ty)
        \<longleftrightarrow> (x, y) \<in> {0..<MAC_SCREEN_WIDTH} \<times> {0..<MAC_SCREEN_HEIGHT}"
  proof
    assume "(x, y) \<in> (\<Union>ty\<in>{0..<TILES_Y}. \<Union>tx\<in>{0..<TILES_X}. tile_pixels tx ty)"
    then obtain tx ty where "tx < 16" "ty < 9" "(x, y) \<in> tile_pixels tx ty" by auto
    then show "(x, y) \<in> {0..<MAC_SCREEN_WIDTH} \<times> {0..<MAC_SCREEN_HEIGHT}"
      using tile_pixels_index[of tx ty x y] by simp
  next
    assume "(x, y) \<in> {0..<MAC_SCREEN_WIDTH} \<times> {0..<MAC_SCREEN_HEIGHT}"
    then have b: "x < 640" "y < 360" by auto
    then have q: "x div 40 < 16" "y div 40 < 9" by auto
    have "tile_index x y = (y div 40) * 16 + x div 40" by (simp add: tile_index_def)
    with b q have "(x, y) \<in> tile_pixels (x div 40) (y div 40)"
      using tile_pixels_index[of "x div 40" "y div 40" x y] by simp
    moreover from q have "y div 40 \<in> {0..<TILES_Y}" "x div 40 \<in> {0..<TILES_X}" by simp_all
    ultimately show "(x, y) \<in> (\<Union>ty\<in>{0..<TILES_Y}. \<Union>tx\<in>{0..<TILES_X}. tile_pixels tx ty)"
      by blast
  qed
qed

lemma tile_pixels_disjoint:
  assumes "tx < 16" "ty < 9" "tx' < 16" "ty' < 9" "(tx, ty) \<noteq> (tx', ty')"
  shows "tile_pixels tx ty \<inter> tile_pixels tx' ty' = {}"
proof (rule ccontr)
  assume "tile_pixels tx ty \<inter> tile_pixels tx' ty' \<noteq> {}"
  then obtain x y where "(x, y) \<in> tile_pixels tx ty" "(x, y) \<in> tile_pixels tx' ty'" by auto
  then have "ty * 16 + tx = ty' * 16 + tx'"
    using tile_pixels_index[OF assms(1,2), of x y] tile_pixels_index[OF assms(3,4), of x y]
    by simp
  then show False using grid_index_unique[OF assms(3) assms(1), of ty ty'] assms(5) by simp
qed

lemma card_tile_pixels: "card (tile_pixels tx ty) = TILE_WIDTH * TILE_HEIGHT"
proof -
  have "inj_on (\<lambda>(c, r). (tx * TILE_WIDTH + c, ty * TILE_HEIGHT + r))
          ({0..<TILE_WIDTH} \<times> {0..<TILE_HEIGHT})"
    by (auto simp: inj_on_def)
  then show ?thesis
    unfolding tile_pixels_def by (simp add: card_image)
qed

text \<open>
  C5. Every valid source pixel \<open>(x, y)\<close> (\<open>x < 640\<close>, \<open>y < 360\<close>) gets a tile index
  \<open>(y div 40) * 16 + x div 40\<close> in \<open>0..143\<close> and lies in the pixel block of exactly that
  tile of the 16 by 9 grid and of no other; the 144 blocks of 40 by 40 pixels are pairwise
  disjoint and their union is the whole 640 by 360 source buffer, with no remainder
  (\<open>40 * 16 = 640\<close>, \<open>40 * 9 = 360\<close>).
\<close>

theorem tile_grid_partition:
  "(\<forall>x<MAC_SCREEN_WIDTH. \<forall>y<MAC_SCREEN_HEIGHT.
      tile_index x y < TOTAL_TILES
      \<and> (\<forall>tx<TILES_X. \<forall>ty<TILES_Y.
            (x, y) \<in> tile_pixels tx ty \<longleftrightarrow> ty * TILES_X + tx = tile_index x y))
   \<and> (\<Union>ty\<in>{0..<TILES_Y}. \<Union>tx\<in>{0..<TILES_X}. tile_pixels tx ty)
        = {0..<MAC_SCREEN_WIDTH} \<times> {0..<MAC_SCREEN_HEIGHT}
   \<and> (\<forall>tx<TILES_X. \<forall>ty<TILES_Y. \<forall>tx'<TILES_X. \<forall>ty'<TILES_Y.
          (tx, ty) \<noteq> (tx', ty') \<longrightarrow> tile_pixels tx ty \<inter> tile_pixels tx' ty' = {})
   \<and> (\<forall>tx ty. card (tile_pixels tx ty) = 1600)
   \<and> TILE_WIDTH * TILES_X = MAC_SCREEN_WIDTH \<and> TILE_HEIGHT * TILES_Y = MAC_SCREEN_HEIGHT"
proof -
  have one: "\<forall>x<MAC_SCREEN_WIDTH. \<forall>y<MAC_SCREEN_HEIGHT.
      tile_index x y < TOTAL_TILES
      \<and> (\<forall>tx<TILES_X. \<forall>ty<TILES_Y.
            (x, y) \<in> tile_pixels tx ty \<longleftrightarrow> ty * TILES_X + tx = tile_index x y)"
  proof (intro allI impI conjI)
    fix x y assume "x < MAC_SCREEN_WIDTH" "y < MAC_SCREEN_HEIGHT"
    then show "tile_index x y < TOTAL_TILES" using tile_index_bound[of x y] by simp
  next
    fix x y tx ty
    assume b: "x < MAC_SCREEN_WIDTH" "y < MAC_SCREEN_HEIGHT" and t: "tx < TILES_X" "ty < TILES_Y"
    from t have "(x, y) \<in> tile_pixels tx ty \<longleftrightarrow>
        x < 640 \<and> y < 360 \<and> tile_index x y = ty * 16 + tx"
      using tile_pixels_index[of tx ty x y] by simp
    with b show "(x, y) \<in> tile_pixels tx ty \<longleftrightarrow> ty * TILES_X + tx = tile_index x y"
      by (simp add: eq_commute)
  qed
  have two: "\<forall>tx<TILES_X. \<forall>ty<TILES_Y. \<forall>tx'<TILES_X. \<forall>ty'<TILES_Y.
          (tx, ty) \<noteq> (tx', ty') \<longrightarrow> tile_pixels tx ty \<inter> tile_pixels tx' ty' = {}"
  proof (intro allI impI)
    fix tx ty tx' ty' :: nat
    assume "tx < TILES_X" "ty < TILES_Y" "tx' < TILES_X" "ty' < TILES_Y" "(tx, ty) \<noteq> (tx', ty')"
    then show "tile_pixels tx ty \<inter> tile_pixels tx' ty' = {}"
      using tile_pixels_disjoint[of tx ty tx' ty'] by simp
  qed
  have three: "\<forall>tx ty. card (tile_pixels tx ty) = 1600"
    using card_tile_pixels by simp
  from one two three tile_pixels_union show ?thesis
    by simp
qed

theorem tile_grid_partition_witness:
  "(639::nat) < MAC_SCREEN_WIDTH \<and> (359::nat) < MAC_SCREEN_HEIGHT
   \<and> (15::nat) < TILES_X \<and> (8::nat) < TILES_Y \<and> (14::nat) < TILES_X
   \<and> tile_index 639 359 = 143 \<and> tile_index 639 359 < TOTAL_TILES
   \<and> (639, 359) \<in> tile_pixels 15 8 \<and> (639, 359) \<notin> tile_pixels 14 8
   \<and> tile_pixels 15 8 \<inter> tile_pixels 14 8 = {}"
proof -
  have i: "tile_index 639 359 = 143" by (simp add: tile_index_def)
  note a = tile_grid_partition[THEN conjunct1, rule_format]
  note d = tile_grid_partition[THEN conjunct2, THEN conjunct2, THEN conjunct1, rule_format]
  have "(639, 359) \<in> tile_pixels 15 8 \<longleftrightarrow> 8 * TILES_X + 15 = tile_index 639 359"
    using a[of 639 359, THEN conjunct2, rule_format, of 15 8] by simp
  moreover have "(639, 359) \<in> tile_pixels 14 8 \<longleftrightarrow> 8 * TILES_X + 14 = tile_index 639 359"
    using a[of 639 359, THEN conjunct2, rule_format, of 14 8] by simp
  moreover have "tile_pixels 15 8 \<inter> tile_pixels 14 8 = {}"
    using d[of 15 8 14 8] by simp
  ultimately show ?thesis using i by simp
qed

section \<open>Properties of the render task\<close>

lemma collectWriteDirtyTiles_unfold:
  "collectWriteDirtyTiles s =
     (popcount_loop (write_dirty_tiles s ! 4) (popcount_loop (write_dirty_tiles s ! 3)
        (popcount_loop (write_dirty_tiles s ! 2) (popcount_loop (write_dirty_tiles s ! 1)
          (popcount_loop (write_dirty_tiles s ! 0) 0)))),
      s\<lparr>write_dirty_tiles := (write_dirty_tiles s)[0 := 0, 1 := 0, 2 := 0, 3 := 0, 4 := 0],
        dirty_tiles := (dirty_tiles s)[0 := write_dirty_tiles s ! 0, 1 := write_dirty_tiles s ! 1,
           2 := write_dirty_tiles s ! 2, 3 := write_dirty_tiles s ! 3, 4 := write_dirty_tiles s ! 4]\<rparr>)"
  unfolding collectWriteDirtyTiles_def
  apply (subst collect_words.simps, simp add: Let_def)
  apply (subst collect_words.simps, simp add: Let_def)
  apply (subst collect_words.simps, simp add: Let_def)
  apply (subst collect_words.simps, simp add: Let_def)
  apply (subst collect_words.simps, simp add: Let_def)
  apply (subst collect_words.simps, simp add: Let_def)
  apply (simp add: eval_nat_numeral)
  done

lemma dirty_threshold_eq: "dirty_threshold = 115"
  by (simp add: dirty_threshold_def)



lemma video_task_step_abandon:
  assumes "notify_value s > 0 \<or> frame_ready s"
    and "now_ticks tm - last_frame_ticks s < mft"
  shows "video_task_step mft tm s = (Abandoned, s\<lparr>notify_value := 0, frame_ready := False\<rparr>)"
  using assms by (simp add: video_task_step_def Let_def)

lemma video_task_step_runs:
  assumes "\<not> ((notify_value s > 0 \<or> frame_ready s) \<and> now_ticks tm - last_frame_ticks s < mft)"
  shows "video_task_step mft tm s =
           (case render_frame tm (s\<lparr>notify_value := 0, frame_ready := False\<rparr>) of
              (Fault, s3) \<Rightarrow> (Fault, s3)
            | (outcome, s3) \<Rightarrow> (outcome, reportVideoPerfStats (now_ms tm) s3))"
  using assms by (auto simp add: video_task_step_def Let_def)


lemma detect_phase_forced: "force_full_update s \<Longrightarrow> detect_phase tm s = Some (True, s)"
  by (simp add: detect_phase_def Let_def)

lemma reportVideoPerfStats_keeps [simp]:
  "force_full_update (reportVideoPerfStats now s) = force_full_update s"
  "display (reportVideoPerfStats now s) = display s"
  "dsi_framebuffer (reportVideoPerfStats now s) = dsi_framebuffer s"
  "write_dirty_tiles (reportVideoPerfStats now s) = write_dirty_tiles s"
  by (simp_all add: reportVideoPerfStats_def)

lemma renderFrameToDSI_keeps [simp]:
  "display (renderFrameToDSI src s) = display s"
  "force_full_update (renderFrameToDSI src s) = force_full_update s"
  "mac_frame_buffer (renderFrameToDSI src s) = mac_frame_buffer s"
  "palette_rgb565 (renderFrameToDSI src s) = palette_rgb565 s"
  by (simp_all add: renderFrameToDSI_def Let_def split: option.split)

lemma pushFramebufferToDisplay_keeps [simp]:
  "force_full_update (pushFramebufferToDisplay s) = force_full_update s"
  "dsi_framebuffer (pushFramebufferToDisplay s) = dsi_framebuffer s"
  by (simp_all add: pushFramebufferToDisplay_def split: option.split)

lemma render_phase_full:
  "fst (render_phase tm pal True s) = FullUpdate"
  "\<not> force_full_update (snd (render_phase tm pal True s))"
  by (simp_all add: render_phase_def Let_def)

lemma render_phase_full_display:
  assumes "mac_frame_buffer s = Some src" "dsi_framebuffer s = Some fb"
  shows "display (snd (render_phase tm pal True s)) =
           display s @ [StartWrite, SetAddrWindow 0 0 DISPLAY_WIDTH DISPLAY_HEIGHT,
             WritePixels (take (DISPLAY_WIDTH * DISPLAY_HEIGHT)
               (renderFrame_rows src (take 256 (palette_rgb565 s)) 0 0 fb)), EndWrite]"
  using assms
  by (simp add: render_phase_def Let_def renderFrameToDSI_def pushFramebufferToDisplay_def)

lemma render_frame_forced:
  assumes "force_full_update s"
  shows "fst (render_frame tm s) = FullUpdate"
    and "\<not> force_full_update (snd (render_frame tm s))"
    and "mac_frame_buffer s = Some src \<Longrightarrow> dsi_framebuffer s = Some fb \<Longrightarrow>
         display (snd (render_frame tm s)) =
           display s @ [StartWrite, SetAddrWindow 0 0 DISPLAY_WIDTH DISPLAY_HEIGHT,
             WritePixels (take (DISPLAY_WIDTH * DISPLAY_HEIGHT)
               (renderFrame_rows src (take 256 (palette_rgb565 s)) 0 0 fb)), EndWrite]"
proof -
  let ?pal = "take 256 (palette_rgb565 s)"
  obtain out s2 where p: "render_phase tm ?pal True s = (out, s2)"
    by (cases "render_phase tm ?pal True s")
  have o: "out = FullUpdate" and f: "\<not> force_full_update s2"
    using render_phase_full[of tm ?pal s] p by simp_all
  have rf: "render_frame tm s =
      (FullUpdate, s2\<lparr>perf_frame_count := perf_frame_count s2 + 1,
                       last_frame_ticks := now_ticks tm\<rparr>)"
    using assms p o by (simp add: render_frame_def detect_phase_forced Let_def)
  show "fst (render_frame tm s) = FullUpdate" using rf by simp
  show "\<not> force_full_update (snd (render_frame tm s))" using rf f by simp
  show "display (snd (render_frame tm s)) =
           display s @ [StartWrite, SetAddrWindow 0 0 DISPLAY_WIDTH DISPLAY_HEIGHT,
             WritePixels (take (DISPLAY_WIDTH * DISPLAY_HEIGHT)
               (renderFrame_rows src ?pal 0 0 fb)), EndWrite]"
    if "mac_frame_buffer s = Some src" "dsi_framebuffer s = Some fb"
    using render_phase_full_display[OF that, of tm ?pal] p rf by simp
qed

lemma video_task_step_forced:
  assumes "force_full_update s"
    and "\<not> ((notify_value s > 0 \<or> frame_ready s) \<and> now_ticks tm - last_frame_ticks s < mft)"
  shows "fst (video_task_step mft tm s) = FullUpdate"
    and "\<not> force_full_update (snd (video_task_step mft tm s))"
    and "mac_frame_buffer s = Some src \<Longrightarrow> dsi_framebuffer s = Some fb \<Longrightarrow>
         display (snd (video_task_step mft tm s)) =
           display s @ [StartWrite, SetAddrWindow 0 0 DISPLAY_WIDTH DISPLAY_HEIGHT,
             WritePixels (take (DISPLAY_WIDTH * DISPLAY_HEIGHT)
               (renderFrame_rows src (take 256 (palette_rgb565 s)) 0 0 fb)), EndWrite]"
proof -
  let ?s = "s\<lparr>notify_value := 0, frame_ready := False\<rparr>"
  have fs: "force_full_update ?s" using assms(1) by simp
  obtain out s3 where r: "render_frame tm ?s = (out, s3)" by (cases "render_frame tm ?s")
  have o: "out = FullUpdate" and f: "\<not> force_full_update s3"
    using render_frame_forced(1,2)[OF fs, of tm] r by simp_all
  have st: "video_task_step mft tm s = (FullUpdate, reportVideoPerfStats (now_ms tm) s3)"
    unfolding video_task_step_runs[OF assms(2)] r o by simp
  show "fst (video_task_step mft tm s) = FullUpdate" using st by simp
  show "\<not> force_full_update (snd (video_task_step mft tm s))" using st f by simp
  show "display (snd (video_task_step mft tm s)) =
           display s @ [StartWrite, SetAddrWindow 0 0 DISPLAY_WIDTH DISPLAY_HEIGHT,
             WritePixels (take (DISPLAY_WIDTH * DISPLAY_HEIGHT)
               (renderFrame_rows src (take 256 (palette_rgb565 s)) 0 0 fb)), EndWrite]"
    if "mac_frame_buffer s = Some src" "dsi_framebuffer s = Some fb"
  proof -
    have "mac_frame_buffer ?s = Some src" "dsi_framebuffer ?s = Some fb" using that by simp_all
    from render_frame_forced(3)[OF fs this, of tm] r st show ?thesis by simp
  qed
qed

lemma marks_keep_force_flag:
  "force_full_update (VideoMarkDirtyOffset offset s) = force_full_update s"
  "force_full_update (VideoMarkDirtyRange offset sz s) = force_full_update s"
  "force_full_update (VideoSignalFrameReady s) = force_full_update s"
  by (simp_all add: VideoMarkDirtyOffset_def VideoMarkDirtyRange_def VideoSignalFrameReady_def
        Let_def)

text \<open>
  \<^verbatim>\<open>set_palette\<close> and the iteration taken one after the other, each as a whole.
  \<^verbatim>\<open>set_palette\<close> sets the forced-full flag. From any state with the flag set (marking
  tiles and signalling a frame keep it), an iteration of the render task is either
  abandoned by the rate limit, and then the flag is still set, or it performs the full
  update, whatever the dirty bitmap and the stale dirty count hold: with both buffers
  present the whole frame, converted from the Mac framebuffer with the current palette
  (\<open>renderFrame_pixels\<close> below says what it holds), is pushed to the display. What
  happens when \<^verbatim>\<open>set_palette\<close> is called while the full update is running is the
  subject of the last section.
\<close>

lemma sequential_palette_forces_full_update:
  "force_full_update (set_palette pal num s0)
   \<and> (force_full_update s \<longrightarrow>
        (fst (video_task_step mft tm s) = Abandoned \<and> force_full_update (snd (video_task_step mft tm s)))
      \<or> (fst (video_task_step mft tm s) = FullUpdate
           \<and> \<not> force_full_update (snd (video_task_step mft tm s))))
   \<and> (force_full_update s
        \<and> \<not> ((notify_value s > 0 \<or> frame_ready s) \<and> now_ticks tm - last_frame_ticks s < mft) \<longrightarrow>
        fst (video_task_step mft tm s) = FullUpdate
        \<and> (\<forall>src fb. mac_frame_buffer s = Some src \<and> dsi_framebuffer s = Some fb \<longrightarrow>
              display (snd (video_task_step mft tm s)) =
                display s @ [StartWrite, SetAddrWindow 0 0 DISPLAY_WIDTH DISPLAY_HEIGHT,
                  WritePixels (take (DISPLAY_WIDTH * DISPLAY_HEIGHT)
                    (renderFrame_rows src (take 256 (palette_rgb565 s)) 0 0 fb)), EndWrite]))
   \<and> (force_full_update s \<and> \<not> force_full_update (snd (video_task_step mft tm s)) \<longrightarrow>
        fst (video_task_step mft tm s) = FullUpdate)
   \<and> force_full_update (VideoMarkDirtyOffset offset s) = force_full_update s
   \<and> force_full_update (VideoMarkDirtyRange offset sz s) = force_full_update s
   \<and> force_full_update (VideoSignalFrameReady s) = force_full_update s"
proof -
  let ?early = "(notify_value s > 0 \<or> frame_ready s) \<and> now_ticks tm - last_frame_ticks s < mft"
  have a: "force_full_update (set_palette pal num s0)"
    by (simp add: set_palette_def Let_def)
  have ab: "fst (video_task_step mft tm s) = Abandoned
            \<and> force_full_update (snd (video_task_step mft tm s))"
    if "force_full_update s" "?early"
    using that video_task_step_abandon[of s tm mft] by simp
  have run: "fst (video_task_step mft tm s) = FullUpdate
            \<and> \<not> force_full_update (snd (video_task_step mft tm s))"
    if "force_full_update s" "\<not> ?early"
    using video_task_step_forced(1,2)[OF that] by simp
  have disp: "display (snd (video_task_step mft tm s)) =
                display s @ [StartWrite, SetAddrWindow 0 0 DISPLAY_WIDTH DISPLAY_HEIGHT,
                  WritePixels (take (DISPLAY_WIDTH * DISPLAY_HEIGHT)
                    (renderFrame_rows src (take 256 (palette_rgb565 s)) 0 0 fb)), EndWrite]"
    if "force_full_update s" "\<not> ?early" "mac_frame_buffer s = Some src" "dsi_framebuffer s = Some fb"
    for src fb
    using video_task_step_forced(3)[OF that] .
  from a ab run disp show ?thesis
    unfolding marks_keep_force_flag by blast
qed



lemma detect_phase_write:
  assumes "\<not> force_full_update s" "use_write_dirty_tracking s"
  shows "detect_phase tm s =
           Some (fst (collectWriteDirtyTiles s) > dirty_threshold,
                 (snd (collectWriteDirtyTiles s))
                   \<lparr>dirty_tile_count := fst (collectWriteDirtyTiles s),
                    perf_detect_us := perf_detect_us (snd (collectWriteDirtyTiles s)) + detect_us tm\<rparr>)"
  using assms by (simp add: detect_phase_def Let_def split: prod.split)

lemma collectWriteDirtyTiles_keeps [simp]:
  "mac_frame_buffer (snd (collectWriteDirtyTiles s)) = mac_frame_buffer s"
  "display (snd (collectWriteDirtyTiles s)) = display s"
  "dsi_framebuffer (snd (collectWriteDirtyTiles s)) = dsi_framebuffer s"
  "tile_buffer (snd (collectWriteDirtyTiles s)) = tile_buffer s"
  "perf_skip_count (snd (collectWriteDirtyTiles s)) = perf_skip_count s"
  "perf_full_count (snd (collectWriteDirtyTiles s)) = perf_full_count s"
  "perf_partial_count (snd (collectWriteDirtyTiles s)) = perf_partial_count s"
  "force_full_update (snd (collectWriteDirtyTiles s)) = force_full_update s"
  by (simp_all add: collectWriteDirtyTiles_unfold)

lemma render_frame_write_decision:
  assumes "\<not> force_full_update s" "use_write_dirty_tracking s"
    and "fst (collectWriteDirtyTiles s) = d" and "mac_frame_buffer s \<noteq> None"
  shows "fst (render_frame tm s) =
           (if d > 115 then FullUpdate else if d > 0 then PartialUpdate else Skipped)"
proof -
  obtain src where src: "mac_frame_buffer s = Some src" using assms(4) by auto
  show ?thesis
    unfolding render_frame_def detect_phase_write[OF assms(1,2)] assms(3)
    by (simp add: render_phase_def Let_def dirty_threshold_eq src)
qed

lemma real_threshold_iff:
  "real_of_int d \<ge> real (DIRTY_THRESHOLD_PERCENT * TOTAL_TILES) / 100 \<longleftrightarrow> d > 115"
proof -
  have "real_of_int d \<ge> real (DIRTY_THRESHOLD_PERCENT * TOTAL_TILES) / 100
        \<longleftrightarrow> real_of_int (100 * d) \<ge> real_of_int 11520"
    by (simp add: field_simps)
  also have "\<dots> \<longleftrightarrow> 100 * d \<ge> 11520" by (simp only: of_int_le_iff)
  also have "\<dots> \<longleftrightarrow> d > 115" by arith
  finally show ?thesis .
qed

text \<open>
  C1. With 144 tiles and a threshold of 80 percent, no forced-full flag and \<open>d\<close> tiles
  drained from the write-time bitmap, the render step chooses the full update exactly
  when \<open>d\<close> is at or above the threshold value 80 * 144 / 100 = 115.2, that is from 116
  dirty tiles on (the code compares \<open>d > 115\<close>, 115 being the integer quotient), and the
  partial update for every \<open>d\<close> with \<open>0 < d\<close> below it: 115 dirty tiles give a partial
  update, 116 a full one.
\<close>

theorem full_update_threshold:
  assumes "\<not> force_full_update s" and "use_write_dirty_tracking s"
    and "fst (collectWriteDirtyTiles s) = d" and "mac_frame_buffer s \<noteq> None"
  shows "(fst (render_frame tm s) = FullUpdate
            \<longleftrightarrow> real_of_int d \<ge> real (DIRTY_THRESHOLD_PERCENT * TOTAL_TILES) / 100)
       \<and> (0 < d \<and> real_of_int d < real (DIRTY_THRESHOLD_PERCENT * TOTAL_TILES) / 100
            \<longrightarrow> fst (render_frame tm s) = PartialUpdate)
       \<and> (d = 115 \<longrightarrow> fst (render_frame tm s) = PartialUpdate)
       \<and> (d = 116 \<longrightarrow> fst (render_frame tm s) = FullUpdate)
       \<and> dirty_threshold = 115"
proof -
  note dec = render_frame_write_decision[OF assms, of tm]
  have lt: "real_of_int d < real (DIRTY_THRESHOLD_PERCENT * TOTAL_TILES) / 100 \<longleftrightarrow> \<not> d > 115"
    using real_threshold_iff[of d] by linarith
  show ?thesis
    unfolding real_threshold_iff lt dec by (simp add: dirty_threshold_eq)
qed
lemma popcount_full_word: "popcount_loop 0xFFFFFFFF c = c + 32"
  by (simp add: popcount_loop.simps)

lemma popcount_zero: "popcount_loop 0 c = c"
  by (simp add: popcount_loop.simps)

lemma popcount_19_bits: "popcount_loop 0x7FFFF c = c + 19"
  by (simp add: popcount_loop.simps)

lemma popcount_20_bits: "popcount_loop 0xFFFFF c = c + 20"
  by (simp add: popcount_loop.simps)

theorem full_update_threshold_witness:
  "\<not> force_full_update
       (initial_state\<lparr>force_full_update := False, mac_frame_buffer := Some (replicate 230400 0x80),
          write_dirty_tiles := [0xFFFFFFFF, 0xFFFFFFFF, 0xFFFFFFFF, 0x7FFFF, 0]\<rparr>)
   \<and> use_write_dirty_tracking
       (initial_state\<lparr>force_full_update := False, mac_frame_buffer := Some (replicate 230400 0x80),
          write_dirty_tiles := [0xFFFFFFFF, 0xFFFFFFFF, 0xFFFFFFFF, 0x7FFFF, 0]\<rparr>)
   \<and> fst (collectWriteDirtyTiles
       (initial_state\<lparr>force_full_update := False, mac_frame_buffer := Some (replicate 230400 0x80),
          write_dirty_tiles := [0xFFFFFFFF, 0xFFFFFFFF, 0xFFFFFFFF, 0x7FFFF, 0]\<rparr>)) = 115
   \<and> fst (render_frame \<lparr>now_ticks = 100, now_ms = 100, detect_us = 3, snapshot_us = 0,
          render_us = 0, push_us = 0\<rparr>
       (initial_state\<lparr>force_full_update := False, mac_frame_buffer := Some (replicate 230400 0x80),
          write_dirty_tiles := [0xFFFFFFFF, 0xFFFFFFFF, 0xFFFFFFFF, 0x7FFFF, 0]\<rparr>)) = PartialUpdate
   \<and> fst (collectWriteDirtyTiles
       (initial_state\<lparr>force_full_update := False, mac_frame_buffer := Some (replicate 230400 0x80),
          write_dirty_tiles := [0xFFFFFFFF, 0xFFFFFFFF, 0xFFFFFFFF, 0xFFFFF, 0]\<rparr>)) = 116
   \<and> fst (render_frame \<lparr>now_ticks = 100, now_ms = 100, detect_us = 3, snapshot_us = 0,
          render_us = 0, push_us = 0\<rparr>
       (initial_state\<lparr>force_full_update := False, mac_frame_buffer := Some (replicate 230400 0x80),
          write_dirty_tiles := [0xFFFFFFFF, 0xFFFFFFFF, 0xFFFFFFFF, 0xFFFFF, 0]\<rparr>)) = FullUpdate"
proof -
  let ?s115 = "initial_state\<lparr>force_full_update := False,
      mac_frame_buffer := Some (replicate 230400 0x80),
      write_dirty_tiles := [0xFFFFFFFF, 0xFFFFFFFF, 0xFFFFFFFF, 0x7FFFF, 0]\<rparr>"
  let ?s116 = "initial_state\<lparr>force_full_update := False,
      mac_frame_buffer := Some (replicate 230400 0x80),
      write_dirty_tiles := [0xFFFFFFFF, 0xFFFFFFFF, 0xFFFFFFFF, 0xFFFFF, 0]\<rparr>"
  let ?tm = "\<lparr>now_ticks = 100, now_ms = 100, detect_us = 3, snapshot_us = 0,
          render_us = 0, push_us = 0\<rparr>"
  have f: "\<not> force_full_update ?s115" "\<not> force_full_update ?s116" by simp_all
  have u: "use_write_dirty_tracking ?s115" "use_write_dirty_tracking ?s116"
    by (simp_all add: initial_state_def)
  have m: "mac_frame_buffer ?s115 \<noteq> None" "mac_frame_buffer ?s116 \<noteq> None" by simp_all
  have c115: "fst (collectWriteDirtyTiles ?s115) = 115"
    by (simp add: collectWriteDirtyTiles_unfold popcount_full_word popcount_zero popcount_19_bits)
  have c116: "fst (collectWriteDirtyTiles ?s116) = 116"
    by (simp add: collectWriteDirtyTiles_unfold popcount_full_word popcount_zero popcount_20_bits)
  have a: "fst (render_frame ?tm ?s115) = PartialUpdate"
    using full_update_threshold[OF f(1) u(1) c115 m(1), of ?tm] by simp
  have b: "fst (render_frame ?tm ?s116) = FullUpdate"
    using full_update_threshold[OF f(2) u(2) c116 m(2), of ?tm] by simp
  show ?thesis
    apply (insert f(1) u(1) c115 a c116 b)
    apply (intro conjI)
    apply assumption+
    done
qed

lemma detect_phase_keeps:
  assumes "detect_phase tm s = Some (b, s1)"
  shows "display s1 = display s" and "dsi_framebuffer s1 = dsi_framebuffer s"
    and "tile_buffer s1 = tile_buffer s" and "mac_frame_buffer s1 = mac_frame_buffer s"
    and "perf_skip_count s1 = perf_skip_count s" and "perf_full_count s1 = perf_full_count s"
    and "perf_partial_count s1 = perf_partial_count s"
    and "force_full_update s1 = force_full_update s"
  using assms
  by (auto simp add: detect_phase_def Let_def takeFrameSnapshot_def detectDirtyTiles_def
        swapBuffers_def collectWriteDirtyTiles_unfold
      split: if_splits option.splits prod.splits)

text \<open>
  C7. On a render step without the forced-full flag whose dirty detection (the drain of
  the write-time bitmap, or the frame comparison when write-time tracking is off) yields
  a dirty count of zero, neither update is performed: the step is \<open>Skipped\<close>, the
  display log, the display framebuffer and the tile buffer are as before, the counters
  of full and partial updates do not move, and the skip counter is one higher. (The
  performance report that ends the loop iteration resets all counters every five
  seconds.)
\<close>

theorem idle_step_skips:
  assumes "\<not> force_full_update s" and "detect_phase tm s = Some (b, s1)"
    and "dirty_tile_count s1 = 0"
  shows "render_frame tm s =
           (Skipped, s1\<lparr>perf_skip_count := perf_skip_count s1 + 1,
                        perf_frame_count := perf_frame_count s1 + 1,
                        last_frame_ticks := now_ticks tm\<rparr>)
       \<and> display (snd (render_frame tm s)) = display s
       \<and> dsi_framebuffer (snd (render_frame tm s)) = dsi_framebuffer s
       \<and> tile_buffer (snd (render_frame tm s)) = tile_buffer s
       \<and> perf_full_count (snd (render_frame tm s)) = perf_full_count s
       \<and> perf_partial_count (snd (render_frame tm s)) = perf_partial_count s
       \<and> perf_skip_count (snd (render_frame tm s)) = perf_skip_count s + 1"
proof -
  have nb: "\<not> b"
    using assms
    by (auto simp add: detect_phase_def Let_def dirty_threshold_eq swapBuffers_def
        split: if_splits option.splits prod.splits)
  have rf: "render_frame tm s =
           (Skipped, s1\<lparr>perf_skip_count := perf_skip_count s1 + 1,
                        perf_frame_count := perf_frame_count s1 + 1,
                        last_frame_ticks := now_ticks tm\<rparr>)"
    using assms(2,3) nb by (simp add: render_frame_def render_phase_def Let_def)
  show ?thesis
    unfolding rf using detect_phase_keeps[OF assms(2)] by simp
qed

lemma zero_bitmap_drained:
  "(replicate 5 (0::uint32))[0 := 0, 1 := 0, 2 := 0, 3 := 0, 4 := 0] = replicate 5 0"
  "(replicate 5 (0::uint32))[0 := replicate 5 0 ! 0, 1 := replicate 5 0 ! 1,
      2 := replicate 5 0 ! 2, 3 := replicate 5 0 ! 3, 4 := replicate 5 0 ! 4] = replicate 5 0"
  by (simp_all add: eval_nat_numeral)

theorem idle_step_skips_witness:
  "\<not> force_full_update (initial_state\<lparr>force_full_update := False\<rparr>)
   \<and> detect_phase \<lparr>now_ticks = 100, now_ms = 100, detect_us = 3, snapshot_us = 0,
                    render_us = 0, push_us = 0\<rparr>
        (initial_state\<lparr>force_full_update := False\<rparr>)
      = Some (False, initial_state\<lparr>force_full_update := False, perf_detect_us := 3\<rparr>)
   \<and> dirty_tile_count (initial_state\<lparr>force_full_update := False, perf_detect_us := 3\<rparr>) = 0
   \<and> fst (render_frame \<lparr>now_ticks = 100, now_ms = 100, detect_us = 3, snapshot_us = 0,
                         render_us = 0, push_us = 0\<rparr>
            (initial_state\<lparr>force_full_update := False\<rparr>)) = Skipped
   \<and> display (snd (render_frame \<lparr>now_ticks = 100, now_ms = 100, detect_us = 3, snapshot_us = 0,
                         render_us = 0, push_us = 0\<rparr>
            (initial_state\<lparr>force_full_update := False\<rparr>))) = []
   \<and> perf_skip_count (snd (render_frame \<lparr>now_ticks = 100, now_ms = 100, detect_us = 3,
                         snapshot_us = 0, render_us = 0, push_us = 0\<rparr>
            (initial_state\<lparr>force_full_update := False\<rparr>))) = 1"
proof -
  let ?s = "initial_state\<lparr>force_full_update := False\<rparr>"
  let ?s1 = "initial_state\<lparr>force_full_update := False, perf_detect_us := 3\<rparr>"
  let ?tm = "\<lparr>now_ticks = 100, now_ms = 100, detect_us = 3, snapshot_us = 0,
                render_us = 0, push_us = 0\<rparr>"
  have f: "\<not> force_full_update ?s" by simp
  have d: "detect_phase ?tm ?s = Some (False, ?s1)"
    using zero_bitmap_drained
    by (simp add: detect_phase_def Let_def collectWriteDirtyTiles_unfold popcount_zero
          initial_state_def dirty_threshold_eq)
  have z: "dirty_tile_count ?s1 = 0" by (simp add: initial_state_def)
  note T = idle_step_skips[OF f d z]
  have a: "fst (render_frame ?tm ?s) = Skipped" using T[THEN conjunct1] by simp
  have b: "display (snd (render_frame ?tm ?s)) = []"
    using T[THEN conjunct2, THEN conjunct1] by (simp add: initial_state_def)
  have c: "perf_skip_count (snd (render_frame ?tm ?s)) = 1"
    using T[THEN conjunct2, THEN conjunct2, THEN conjunct2, THEN conjunct2, THEN conjunct2,
            THEN conjunct2]
    by (simp add: initial_state_def)
  show ?thesis
    apply (insert f d z a b c)
    apply (intro conjI)
    apply assumption+
    done
qed

section \<open>Properties of the initialisation\<close>

lemma VideoInit_mac_failure:
  assumes "\<not> mac_alloc_ok env"
  shows "VideoInit env s =
           (False, s\<lparr>frame_buffer_size := 230400, mac_frame_buffer := None\<rparr>)"
  using assms by (simp add: VideoInit_def ps_malloc_bytes_def Let_def)

lemma VideoInit_triple_buffer_failure:
  assumes "mac_alloc_ok env" and "\<not> snapshot_alloc_ok env \<or> \<not> compare_alloc_ok env"
  shows "fst (VideoInit env s) = False"
    and "heap_live (snd (VideoInit env s)) = heap_live s"
    and "mac_frame_buffer (snd (VideoInit env s)) = None"
    and "snapshot_buffer (snd (VideoInit env s)) = None"
    and "compare_buffer (snd (VideoInit env s)) = None"
  using assms
  by (auto simp add: VideoInit_def ps_malloc_bytes_def free_block_def Let_def)

lemma VideoInit_display_failure:
  assumes "mac_alloc_ok env" "snapshot_alloc_ok env" "compare_alloc_ok env"
    and "\<not> panel_ok env \<or> \<not> dsi_alloc_ok env"
  shows "fst (VideoInit env s) = False"
    and "heap_live (snd (VideoInit env s)) = heap_live s + 2"
    and "mac_frame_buffer (snd (VideoInit env s)) = None"
    and "snapshot_buffer (snd (VideoInit env s)) = Some (replicate 230400 0x80)"
    and "compare_buffer (snd (VideoInit env s)) = Some (replicate 230400 0x80)"
  using assms
  by (auto simp add: VideoInit_def ps_malloc_bytes_def free_block_def getDSIFramebuffer_def
        Let_def)

text \<open>
  C8 fails on the code at the last failure point. When the Mac framebuffer, the snapshot
  buffer and the compare buffer are allocated and the display framebuffer is not
  obtained, \<^verbatim>\<open>VideoInit\<close> returns failure after freeing the Mac framebuffer only: the
  snapshot and compare buffers stay allocated and their pointers stay set, while the
  failure of the snapshot or compare allocation just before releases everything
  (\<open>VideoInit_triple_buffer_failure\<close>).
\<close>

theorem VideoInit_display_failure_keeps_buffers:
  "fst (VideoInit \<lparr>mac_alloc_ok = True, snapshot_alloc_ok = True, compare_alloc_ok = True,
                    panel_ok = True, dsi_alloc_ok = False, task_create_ok = True,
                    fresh_byte = (\<lambda>i. 0), fresh_pixel = (\<lambda>i. 0)\<rparr> initial_state) = False
   \<and> heap_live (snd (VideoInit \<lparr>mac_alloc_ok = True, snapshot_alloc_ok = True,
                    compare_alloc_ok = True, panel_ok = True, dsi_alloc_ok = False,
                    task_create_ok = True, fresh_byte = (\<lambda>i. 0), fresh_pixel = (\<lambda>i. 0)\<rparr>
                    initial_state)) = 2
   \<and> snapshot_buffer (snd (VideoInit \<lparr>mac_alloc_ok = True, snapshot_alloc_ok = True,
                    compare_alloc_ok = True, panel_ok = True, dsi_alloc_ok = False,
                    task_create_ok = True, fresh_byte = (\<lambda>i. 0), fresh_pixel = (\<lambda>i. 0)\<rparr>
                    initial_state)) \<noteq> None
   \<and> compare_buffer (snd (VideoInit \<lparr>mac_alloc_ok = True, snapshot_alloc_ok = True,
                    compare_alloc_ok = True, panel_ok = True, dsi_alloc_ok = False,
                    task_create_ok = True, fresh_byte = (\<lambda>i. 0), fresh_pixel = (\<lambda>i. 0)\<rparr>
                    initial_state)) \<noteq> None
   \<and> mac_frame_buffer (snd (VideoInit \<lparr>mac_alloc_ok = True, snapshot_alloc_ok = True,
                    compare_alloc_ok = True, panel_ok = True, dsi_alloc_ok = False,
                    task_create_ok = True, fresh_byte = (\<lambda>i. 0), fresh_pixel = (\<lambda>i. 0)\<rparr>
                    initial_state)) = None"
proof -
  let ?env = "\<lparr>mac_alloc_ok = True, snapshot_alloc_ok = True, compare_alloc_ok = True,
                panel_ok = True, dsi_alloc_ok = False, task_create_ok = True,
                fresh_byte = (\<lambda>i. 0), fresh_pixel = (\<lambda>i. 0)\<rparr>"
  have e: "mac_alloc_ok ?env" "snapshot_alloc_ok ?env" "compare_alloc_ok ?env"
    "\<not> panel_ok ?env \<or> \<not> dsi_alloc_ok ?env"
    by simp_all
  have h: "heap_live initial_state = 0" by (simp add: initial_state_def)
  show ?thesis
    using VideoInit_display_failure[OF e, of initial_state] h by simp
qed
section \<open>Properties of the dirty tracker\<close>

lemma bitmap_test_iff: "bitmap_test bm t \<longleftrightarrow> bit (bm ! (t div 32)) (t mod 32)"
  by (simp add: bitmap_test_def bit_iff_and_push_bit_not_eq_0)

lemma bitmap_tiles_iff:
  "t \<in> bitmap_tiles bm \<longleftrightarrow> t < 160 \<and> bit (bm ! (t div 32)) (t mod 32)"
  by (simp add: bitmap_tiles_def bitmap_test_iff)

lemma offset_tile_idx_bound:
  assumes "unat offset < 230400"
  shows "offset_tile_idx offset < 144"
proof -
  have "unat offset div 640 < 360" using assms by simp
  moreover have "unat offset mod 640 < 640" by simp
  ultimately show ?thesis
    unfolding offset_tile_idx_def Let_def MAC_SCREEN_WIDTH_def by (rule tile_index_bound[rotated])
qed

lemma div_mod_32_eq: "(t::nat) div 32 = i div 32 \<and> t mod 32 = i mod 32 \<longleftrightarrow> t = i"
proof
  assume a: "t div 32 = i div 32 \<and> t mod 32 = i mod 32"
  have "t = 32 * (t div 32) + t mod 32" by simp
  also have "\<dots> = 32 * (i div 32) + i mod 32" using a by simp
  also have "\<dots> = i" by simp
  finally show "t = i" .
qed simp

lemma bitmap_tiles_atomic_or:
  assumes "length bm = 5" and "idx < 160"
  shows "bitmap_tiles (atomic_or bm (idx div 32) (push_bit (idx mod 32) 1))
           = insert idx (bitmap_tiles bm)"
proof (rule set_eqI)
  fix t
  have i5: "idx div 32 < length bm" using assms by simp
  show "t \<in> bitmap_tiles (atomic_or bm (idx div 32) (push_bit (idx mod 32) 1))
          \<longleftrightarrow> t \<in> insert idx (bitmap_tiles bm)"
  proof (cases "t div 32 = idx div 32")
    case True
    then have "(bm[idx div 32 := bm ! (idx div 32) OR push_bit (idx mod 32) 1]) ! (t div 32)
                 = bm ! (t div 32) OR push_bit (idx mod 32) 1"
      using i5 by simp
    moreover have "bit (push_bit (idx mod 32) (1::uint32)) (t mod 32) \<longleftrightarrow> t mod 32 = idx mod 32"
      by (auto simp add: bit_exp_iff)
    moreover have "t mod 32 = idx mod 32 \<longleftrightarrow> t = idx"
      using True div_mod_32_eq[of t idx] by blast
    ultimately show ?thesis
      using assms(2) by (auto simp add: bitmap_tiles_iff atomic_or_def bit_or_iff)
  next
    case False
    then have "(bm[idx div 32 := bm ! (idx div 32) OR push_bit (idx mod 32) 1]) ! (t div 32)
                 = bm ! (t div 32)"
      by simp
    moreover from False have "t \<noteq> idx" by auto
    ultimately show ?thesis
      by (simp add: bitmap_tiles_iff atomic_or_def)
  qed
qed

lemma VideoMarkDirtyOffset_ignored:
  assumes "\<not> use_write_dirty_tracking s \<or> frame_buffer_size s \<le> offset"
  shows "VideoMarkDirtyOffset offset s = s"
  using assms by (auto simp add: VideoMarkDirtyOffset_def)

lemma VideoMarkDirtyOffset_marks:
  assumes "use_write_dirty_tracking s" and "offset < frame_buffer_size s"
  shows "VideoMarkDirtyOffset offset s =
           s\<lparr>write_dirty_tiles :=
               atomic_or (write_dirty_tiles s) (offset_tile_idx offset div 32)
                 (push_bit (offset_tile_idx offset mod 32) 1)\<rparr>"
  using assms by (simp add: VideoMarkDirtyOffset_def Let_def)

lemma VideoMarkDirtyOffset_tiles:
  assumes "use_write_dirty_tracking s" and "length (write_dirty_tiles s) = 5"
    and "unat (frame_buffer_size s) \<le> 230400" and "offset < frame_buffer_size s"
  shows "bitmap_tiles (write_dirty_tiles (VideoMarkDirtyOffset offset s))
           = insert (offset_tile_idx offset) (bitmap_tiles (write_dirty_tiles s))"
proof -
  have "unat offset < 230400" using assms(3,4) by (simp add: word_less_nat_alt)
  then have "offset_tile_idx offset < 160" using offset_tile_idx_bound[of offset] by simp
  then show ?thesis
    unfolding VideoMarkDirtyOffset_marks[OF assms(1,4)]
    using bitmap_tiles_atomic_or[OF assms(2)] by simp
qed

lemma VideoMarkDirtyOffset_keeps [simp]:
  "use_write_dirty_tracking (VideoMarkDirtyOffset offset s) = use_write_dirty_tracking s"
  "frame_buffer_size (VideoMarkDirtyOffset offset s) = frame_buffer_size s"
  "length (write_dirty_tiles (VideoMarkDirtyOffset offset s)) = length (write_dirty_tiles s)"
  "dirty_tiles (VideoMarkDirtyOffset offset s) = dirty_tiles s"
  by (simp_all add: VideoMarkDirtyOffset_def Let_def atomic_or_def)
lemma VideoMarkDirtyOffset_call_tiles:
  assumes "use_write_dirty_tracking s" and "length (write_dirty_tiles s) = 5"
    and "unat (frame_buffer_size s) \<le> 230400"
  shows "bitmap_tiles (write_dirty_tiles (VideoMarkDirtyOffset offset s))
           = bitmap_tiles (write_dirty_tiles s)
               \<union> call_tiles (frame_buffer_size s) (MarkDirtyOffset offset)"
proof (cases "offset < frame_buffer_size s")
  case True
  then show ?thesis using VideoMarkDirtyOffset_tiles[OF assms True] by simp
next
  case False
  then have "VideoMarkDirtyOffset offset s = s"
    by (intro VideoMarkDirtyOffset_ignored) (simp add: not_less)
  with False show ?thesis by simp
qed

lemma VideoMarkDirtyRange_call_tiles:
  assumes "use_write_dirty_tracking s" and "length (write_dirty_tiles s) = 5"
    and "unat (frame_buffer_size s) \<le> 230400"
  shows "bitmap_tiles (write_dirty_tiles (VideoMarkDirtyRange offset sz s))
           = bitmap_tiles (write_dirty_tiles s)
               \<union> call_tiles (frame_buffer_size s) (MarkDirtyRange offset sz)"
proof (cases "offset < frame_buffer_size s")
  case False
  then have "VideoMarkDirtyRange offset sz s = s"
    by (simp add: VideoMarkDirtyRange_def not_less)
  with False show ?thesis by simp
next
  case True
  let ?fbs = "frame_buffer_size s"
  let ?sz = "clamp_size ?fbs offset sz"
  let ?s1 = "VideoMarkDirtyOffset offset s"
  have s1: "use_write_dirty_tracking ?s1" "length (write_dirty_tiles ?s1) = 5"
    "unat (frame_buffer_size ?s1) \<le> 230400" "frame_buffer_size ?s1 = ?fbs"
    using assms by simp_all
  have first: "bitmap_tiles (write_dirty_tiles ?s1)
                 = insert (offset_tile_idx offset) (bitmap_tiles (write_dirty_tiles s))"
    using VideoMarkDirtyOffset_tiles[OF assms True] .
  have r: "VideoMarkDirtyRange offset sz s
             = (if 1 < ?sz then VideoMarkDirtyOffset (offset + ?sz - 1) ?s1 else ?s1)"
    using True assms(1) by (simp add: VideoMarkDirtyRange_def Let_def)
  show ?thesis
  proof (cases "1 < ?sz")
    case False
    with r first True show ?thesis by (simp add: Let_def)
  next
    case big: True
    have "bitmap_tiles (write_dirty_tiles (VideoMarkDirtyOffset (offset + ?sz - 1) ?s1))
            = bitmap_tiles (write_dirty_tiles ?s1)
                \<union> call_tiles ?fbs (MarkDirtyOffset (offset + ?sz - 1))"
      using VideoMarkDirtyOffset_call_tiles[OF s1(1,2,3), of "offset + ?sz - 1"] s1(4) by simp
    with r big first True show ?thesis by (auto simp add: Let_def)
  qed
qed

lemma clamp_size_facts:
  assumes "offset < fbs" and "1 \<le> unat sz" and "unat offset + unat sz < 2 ^ 32"
  shows "unat offset + unat (clamp_size fbs offset sz) \<le> unat fbs"
    and "1 \<le> unat (clamp_size fbs offset sz)"
    and "unat offset + unat sz \<le> unat fbs \<Longrightarrow> clamp_size fbs offset sz = sz"
    and "unat (offset + clamp_size fbs offset sz - 1)
           = unat offset + unat (clamp_size fbs offset sz) - 1"
    and "offset + clamp_size fbs offset sz - 1 < fbs"
proof -
  have lt: "unat offset < unat fbs" using assms(1) by (simp add: word_less_nat_alt)
  have sum: "unat (offset + sz) = unat offset + unat sz"
    using assms(3) by (simp add: unat_add_lem[THEN iffD1])
  have gt: "offset + sz > fbs \<longleftrightarrow> unat offset + unat sz > unat fbs"
    by (simp add: word_less_nat_alt sum)
  have sub: "unat (fbs - offset) = unat fbs - unat offset"
    using assms(1) by (simp add: unat_sub word_le_nat_alt word_less_nat_alt)
  show a: "unat offset + unat (clamp_size fbs offset sz) \<le> unat fbs"
    using lt by (simp add: clamp_size_def gt sub)
  show b: "1 \<le> unat (clamp_size fbs offset sz)"
    using lt assms(2) by (auto simp add: clamp_size_def gt sub)
  show "clamp_size fbs offset sz = sz" if "unat offset + unat sz \<le> unat fbs"
    using that by (simp add: clamp_size_def gt)
  let ?c = "clamp_size fbs offset sz"
  have fb: "unat fbs < 2 ^ 32" using unsigned_less[of fbs] by simp
  have s2: "unat (offset + ?c) = unat offset + unat ?c"
    using a fb by (simp add: unat_add_lem[THEN iffD1])
  have "1 \<le> offset + ?c" using b s2 by (simp add: word_le_nat_alt)
  then have "unat (offset + ?c - 1) = unat (offset + ?c) - 1"
    by (simp add: unat_sub)
  then show c: "unat (offset + ?c - 1) = unat offset + unat ?c - 1" using s2 by simp
  show "offset + ?c - 1 < fbs"
    using a b c by (simp add: word_less_nat_alt)
qed

text \<open>
  C4. A multi-byte write \<open>MarkDirty(offset, size)\<close> with \<open>size > 1\<close> that starts inside
  the framebuffer (and whose byte range \<open>offset + size\<close> does not wrap 32 bits) marks
  exactly the tile of its first byte and the tile of its last byte
  \<open>offset + size' - 1\<close>, where \<open>size'\<close> is the size after clamping: the set of marked
  tiles afterwards is the set before plus these two, so no interior tile is marked. The
  clamped range ends inside the framebuffer, and a write that is in bounds
  (\<open>offset + size\<close> at most the framebuffer size) is not clamped at all.
\<close>

theorem mark_range_first_and_last_tile:
  assumes "use_write_dirty_tracking s" and "length (write_dirty_tiles s) = BITMAP_WORDS"
    and "unat (frame_buffer_size s) \<le> MAC_SCREEN_WIDTH * MAC_SCREEN_HEIGHT"
    and "offset < frame_buffer_size s" and "1 < sz" and "unat offset + unat sz < 2 ^ 32"
  shows "bitmap_tiles (write_dirty_tiles (VideoMarkDirtyRange offset sz s))
           = bitmap_tiles (write_dirty_tiles s)
               \<union> {offset_tile_idx offset,
                   offset_tile_idx (offset + clamp_size (frame_buffer_size s) offset sz - 1)}
       \<and> unat (offset + clamp_size (frame_buffer_size s) offset sz - 1)
           = unat offset + unat (clamp_size (frame_buffer_size s) offset sz) - 1
       \<and> unat offset + unat (clamp_size (frame_buffer_size s) offset sz)
           \<le> unat (frame_buffer_size s)
       \<and> (unat offset + unat sz \<le> unat (frame_buffer_size s)
            \<longrightarrow> clamp_size (frame_buffer_size s) offset sz = sz)"
proof -
  let ?fbs = "frame_buffer_size s"
  let ?c = "clamp_size ?fbs offset sz"
  have sz1: "1 \<le> unat sz" using assms(5) by (simp add: word_less_nat_alt)
  note cf = clamp_size_facts[OF assms(4) sz1 assms(6)]
  have l: "length (write_dirty_tiles s) = 5" and f: "unat ?fbs \<le> 230400"
    using assms(2,3) by simp_all
  have "call_tiles ?fbs (MarkDirtyRange offset sz)
          = {offset_tile_idx offset, offset_tile_idx (offset + ?c - 1)}"
  proof (cases "1 < ?c")
    case True
    with assms(4) cf(5) show ?thesis by (auto simp add: Let_def)
  next
    case False
    then have "unat ?c \<le> 1" by (simp add: word_less_nat_alt)
    with cf(2) have "unat ?c = 1" by simp
    then have "?c = 1" by (simp add: word_unat_eq_iff)
    with assms(4) show ?thesis by (simp add: Let_def)
  qed
  then show ?thesis
    using VideoMarkDirtyRange_call_tiles[OF assms(1) l f, of offset sz] cf(1,3,4) by simp
qed

theorem mark_range_first_and_last_tile_witness:
  "use_write_dirty_tracking (initial_state\<lparr>frame_buffer_size := 230400\<rparr>)
   \<and> length (write_dirty_tiles (initial_state\<lparr>frame_buffer_size := 230400\<rparr>)) = BITMAP_WORDS
   \<and> unat (frame_buffer_size (initial_state\<lparr>frame_buffer_size := 230400\<rparr>))
       \<le> MAC_SCREEN_WIDTH * MAC_SCREEN_HEIGHT
   \<and> (0::uint32) < frame_buffer_size (initial_state\<lparr>frame_buffer_size := 230400\<rparr>)
   \<and> (1::uint32) < 120
   \<and> unat (0::uint32) + unat (120::uint32) < 2 ^ 32
   \<and> bitmap_tiles (write_dirty_tiles
         (VideoMarkDirtyRange 0 120 (initial_state\<lparr>frame_buffer_size := 230400\<rparr>))) = {0, 2}
   \<and> 1 \<notin> bitmap_tiles (write_dirty_tiles
         (VideoMarkDirtyRange 0 120 (initial_state\<lparr>frame_buffer_size := 230400\<rparr>)))"
proof -
  let ?s = "initial_state\<lparr>frame_buffer_size := 230400\<rparr>"
  have h1: "use_write_dirty_tracking ?s"
    and h2: "length (write_dirty_tiles ?s) = BITMAP_WORDS"
    and h3: "unat (frame_buffer_size ?s) \<le> MAC_SCREEN_WIDTH * MAC_SCREEN_HEIGHT"
    and h4: "(0::uint32) < frame_buffer_size ?s"
    by (simp_all add: initial_state_def)
  have h5: "(1::uint32) < 120" and h6: "unat (0::uint32) + unat (120::uint32) < 2 ^ 32"
    by simp_all
  have e: "bitmap_tiles (write_dirty_tiles ?s) = {}"
    by (auto simp add: bitmap_tiles_iff initial_state_def)
  have c: "clamp_size (frame_buffer_size ?s) 0 120 = 120"
    by (simp add: clamp_size_def)
  have t0: "offset_tile_idx 0 = 0" and t2: "offset_tile_idx 119 = 2"
    by (simp_all add: offset_tile_idx_def tile_index_def)
  have a: "bitmap_tiles (write_dirty_tiles (VideoMarkDirtyRange 0 120 ?s)) = {0, 2}"
    using mark_range_first_and_last_tile[OF h1 h2 h3 h4 h5 h6, THEN conjunct1]
    unfolding c e by (simp add: t0 t2)
  have b: "1 \<notin> bitmap_tiles (write_dirty_tiles (VideoMarkDirtyRange 0 120 ?s))"
    unfolding a by simp
  show ?thesis
    apply (insert h1 h2 h3 h4 h5 h6 a b)
    apply (intro conjI)
    apply assumption+
    done
qed
lemma bits_of_word_split:
  "{n. bit w n} = {n. n = 0 \<and> bit w 0} \<union> image Suc {n. bit (drop_bit 1 w) n}" for w :: uint32
proof (rule set_eqI)
  fix n
  show "n \<in> {n. bit w n} \<longleftrightarrow> n \<in> {n. n = 0 \<and> bit w 0} \<union> image Suc {n. bit (drop_bit 1 w) n}"
  proof (cases n)
    case 0
    then show ?thesis by auto
  next
    case (Suc k)
    then show ?thesis by (auto simp add: bit_drop_bit_eq)
  qed
qed

lemma card_bits_step:
  "int (card {n. bit w n}) = uint (w AND 1) + int (card {n. bit (drop_bit 1 w) n})"
  for w :: uint32
proof -
  have fin: "finite {n. bit (drop_bit 1 w) n}" by simp
  have "card {n. bit w n}
          = card ({n::nat. n = 0 \<and> bit w 0} \<union> image Suc {n. bit (drop_bit 1 w) n})"
    by (rule arg_cong[where f = card], rule bits_of_word_split)
  also have "\<dots> = card {n::nat. n = 0 \<and> bit w 0} + card (image Suc {n. bit (drop_bit 1 w) n})"
    by (rule card_Un_disjoint) (auto simp add: fin)
  also have "card (image Suc {n. bit (drop_bit 1 w) n}) = card {n. bit (drop_bit 1 w) n}"
    by (rule card_image) simp
  finally have total: "card {n. bit w n}
      = card {n::nat. n = 0 \<and> bit w 0} + card {n. bit (drop_bit 1 w) n}" .
  have "int (card {n::nat. n = 0 \<and> bit w 0}) = uint (w AND 1)"
  proof (cases "bit w 0")
    case True
    then have "{n::nat. n = 0 \<and> bit w 0} = {0}" by auto
    moreover from True have "w AND 1 = 1" by (simp add: and_one_eq bit_0 mod_2_eq_odd)
    ultimately show ?thesis by simp
  next
    case False
    then have "{n::nat. n = 0 \<and> bit w 0} = {}" by auto
    moreover from False have "w AND 1 = 0" by (simp add: and_one_eq bit_0 mod_2_eq_odd)
    ultimately show ?thesis by simp
  qed
  with total show ?thesis by simp
qed

lemma popcount_loop_card: "popcount_loop w c = c + int (card {n. bit w n})"
proof (induction w c rule: popcount_loop.induct)
  case (1 bits count)
  show ?case
  proof (cases "bits = 0")
    case True
    then show ?thesis by (simp add: popcount_loop.simps)
  next
    case False
    have "popcount_loop bits count = popcount_loop (drop_bit 1 bits) (count + uint (bits AND 1))"
      using False by (subst popcount_loop.simps) simp
    also have "\<dots> = count + uint (bits AND 1) + int (card {n. bit (drop_bit 1 bits) n})"
      using "1.IH"[OF False] .
    also have "\<dots> = count + int (card {n. bit bits n})"
      using card_bits_step[of bits] by simp
    finally show ?thesis .
  qed
qed

lemma bitmap_tiles_as_union:
  "bitmap_tiles bm = (\<Union>i\<in>{0..<5}. image (\<lambda>n. 32 * i + n) {n. bit (bm ! i) n})"
proof (rule set_eqI)
  fix t
  show "t \<in> bitmap_tiles bm \<longleftrightarrow> t \<in> (\<Union>i\<in>{0..<5}. image (\<lambda>n. 32 * i + n) {n. bit (bm ! i) n})"
  proof
    assume "t \<in> bitmap_tiles bm"
    then have a: "t < 160" "bit (bm ! (t div 32)) (t mod 32)" by (simp_all add: bitmap_tiles_iff)
    then have "t div 32 \<in> {0..<5}" by simp
    moreover have "t = 32 * (t div 32) + t mod 32" by simp
    ultimately show "t \<in> (\<Union>i\<in>{0..<5}. image (\<lambda>n. 32 * i + n) {n. bit (bm ! i) n})"
      using a(2) by blast
  next
    assume "t \<in> (\<Union>i\<in>{0..<5}. image (\<lambda>n. 32 * i + n) {n. bit (bm ! i) n})"
    then obtain i n where i: "i < 5" and b: "bit (bm ! i) n" and t: "t = 32 * i + n" by auto
    from b have n: "n < 32" using bit_imp_le_length[OF b] by simp
    with t have "t div 32 = i" "t mod 32 = n" by simp_all
    moreover from i n t have "t < 160" by simp
    ultimately show "t \<in> bitmap_tiles bm" using b by (simp add: bitmap_tiles_iff)
  qed
qed

lemma card_bitmap_tiles:
  "card (bitmap_tiles bm) = (\<Sum>i\<in>{0..<5}. card {n. bit (bm ! i) n})"
proof -
  have disj: "\<forall>i\<in>{0..<5}. \<forall>j\<in>{0..<5}. i \<noteq> j \<longrightarrow>
      image (\<lambda>n. 32 * i + n) {n. bit (bm ! i) n} \<inter> image (\<lambda>n. 32 * j + n) {n. bit (bm ! j) n} = {}"
  proof (intro ballI impI)
    fix i j :: nat
    assume ne: "i \<noteq> j"
    show "image (\<lambda>n. 32 * i + n) {n. bit (bm ! i) n} \<inter> image (\<lambda>n. 32 * j + n) {n. bit (bm ! j) n} = {}"
    proof (rule ccontr)
      assume "image (\<lambda>n. 32 * i + n) {n. bit (bm ! i) n} \<inter> image (\<lambda>n. 32 * j + n) {n. bit (bm ! j) n} \<noteq> {}"
      then obtain n m where b: "bit (bm ! i) n" "bit (bm ! j) m" and e: "32 * i + n = 32 * j + m"
        by auto
      have "n < 32" "m < 32" using bit_imp_le_length[OF b(1)] bit_imp_le_length[OF b(2)] by simp_all
      then have "(32 * i + n) div 32 = i" "(32 * j + m) div 32 = j" by simp_all
      with e ne show False by simp
    qed
  qed
  have "card (bitmap_tiles bm)
          = (\<Sum>i\<in>{0..<5}. card (image (\<lambda>n. 32 * i + n) {n. bit (bm ! i) n}))"
    unfolding bitmap_tiles_as_union
    by (rule card_UN_disjoint) (use disj in simp_all)
  also have "\<dots> = (\<Sum>i\<in>{0..<5}. card {n. bit (bm ! i) n})"
    by (intro sum.cong refl card_image) (simp add: inj_on_def)
  finally show ?thesis .
qed

lemma length_5_list:
  assumes "length xs = 5"
  shows "xs = [xs ! 0, xs ! 1, xs ! 2, xs ! 3, xs ! 4]"
proof -
  from assms obtain a b c d e where "xs = [a, b, c, d, e]"
    by (auto simp add: eval_nat_numeral length_Suc_conv)
  then show ?thesis by (simp add: eval_nat_numeral)
qed

lemma collectWriteDirtyTiles_drains:
  assumes "length (write_dirty_tiles s) = 5" and "length (dirty_tiles s) = 5"
  shows "collectWriteDirtyTiles s =
           (int (card (bitmap_tiles (write_dirty_tiles s))),
            s\<lparr>write_dirty_tiles := replicate 5 0, dirty_tiles := write_dirty_tiles s\<rparr>)"
proof -
  obtain a b c d e where ws: "write_dirty_tiles s = [a, b, c, d, e]"
    using length_5_list[OF assms(1)] by metis
  obtain a' b' c' d' e' where ds: "dirty_tiles s = [a', b', c', d', e']"
    using length_5_list[OF assms(2)] by metis
  have z: "(write_dirty_tiles s)[0 := 0, 1 := 0, 2 := 0, 3 := 0, 4 := 0] = replicate 5 0"
    unfolding ws by (simp add: eval_nat_numeral)
  have w: "(dirty_tiles s)[0 := write_dirty_tiles s ! 0, 1 := write_dirty_tiles s ! 1,
             2 := write_dirty_tiles s ! 2, 3 := write_dirty_tiles s ! 3,
             4 := write_dirty_tiles s ! 4] = write_dirty_tiles s"
    unfolding ws ds by (simp add: eval_nat_numeral)
  have five: "{0..<5::nat} = {0, 1, 2, 3, 4}" by auto
  have cnt: "popcount_loop (write_dirty_tiles s ! 4) (popcount_loop (write_dirty_tiles s ! 3)
        (popcount_loop (write_dirty_tiles s ! 2) (popcount_loop (write_dirty_tiles s ! 1)
          (popcount_loop (write_dirty_tiles s ! 0) 0))))
        = int (card (bitmap_tiles (write_dirty_tiles s)))"
    unfolding popcount_loop_card card_bitmap_tiles five by simp
  show ?thesis
    unfolding collectWriteDirtyTiles_unfold z w cnt ..
qed
lemma VideoMarkDirtyRange_keeps [simp]:
  "use_write_dirty_tracking (VideoMarkDirtyRange offset sz s) = use_write_dirty_tracking s"
  "frame_buffer_size (VideoMarkDirtyRange offset sz s) = frame_buffer_size s"
  "length (write_dirty_tiles (VideoMarkDirtyRange offset sz s)) = length (write_dirty_tiles s)"
  "dirty_tiles (VideoMarkDirtyRange offset sz s) = dirty_tiles s"
  by (simp_all add: VideoMarkDirtyRange_def Let_def)

lemma bitmap_tiles_zero: "bitmap_tiles (replicate 5 0) = {}"
  by (auto simp add: bitmap_tiles_iff)

lemma drained_sets_next_drain:
  assumes "Drain \<notin> set mid"
  shows "drained_sets fbsize pending (mid @ Drain # post)
           = (pending \<union> (\<Union>c\<in>set mid. call_tiles fbsize c)) # drained_sets fbsize {} post"
  using assms
proof (induction mid arbitrary: pending)
  case Nil
  then show ?case by simp
next
  case (Cons c mid)
  then show ?case by (cases c) (auto simp add: Un_assoc)
qed

lemma run_calls_reports:
  assumes "use_write_dirty_tracking s" and "length (write_dirty_tiles s) = 5"
    and "length (dirty_tiles s) = 5" and "unat (frame_buffer_size s) \<le> 230400"
  shows "map (\<lambda>(count, bm). bitmap_tiles bm) (fst (run_calls cs s))
           = drained_sets (frame_buffer_size s) (bitmap_tiles (write_dirty_tiles s)) cs
       \<and> list_all (\<lambda>(count, bm). count = int (card (bitmap_tiles bm))) (fst (run_calls cs s))"
  using assms
proof (induction cs arbitrary: s)
  case Nil
  then show ?case by simp
next
  case (Cons c cs)
  show ?case
  proof (cases c)
    case (MarkDirtyOffset offset)
    let ?s = "VideoMarkDirtyOffset offset s"
    have "use_write_dirty_tracking ?s" "length (write_dirty_tiles ?s) = 5"
      "length (dirty_tiles ?s) = 5" "unat (frame_buffer_size ?s) \<le> 230400"
      using Cons.prems by simp_all
    from Cons.IH[OF this] show ?thesis
      using MarkDirtyOffset VideoMarkDirtyOffset_call_tiles[OF Cons.prems(1,2,4), of offset]
      by simp
  next
    case (MarkDirtyRange offset sz)
    let ?s = "VideoMarkDirtyRange offset sz s"
    have "use_write_dirty_tracking ?s" "length (write_dirty_tiles ?s) = 5"
      "length (dirty_tiles ?s) = 5" "unat (frame_buffer_size ?s) \<le> 230400"
      using Cons.prems by simp_all
    from Cons.IH[OF this] show ?thesis
      using MarkDirtyRange VideoMarkDirtyRange_call_tiles[OF Cons.prems(1,2,4), of offset sz]
      by simp
  next
    case Drain
    let ?s = "s\<lparr>write_dirty_tiles := replicate 5 0, dirty_tiles := write_dirty_tiles s\<rparr>"
    have d: "collectWriteDirtyTiles s = (int (card (bitmap_tiles (write_dirty_tiles s))), ?s)"
      using collectWriteDirtyTiles_drains[OF Cons.prems(2,3)] .
    have "use_write_dirty_tracking ?s" "length (write_dirty_tiles ?s) = 5"
      "length (dirty_tiles ?s) = 5" "unat (frame_buffer_size ?s) \<le> 230400"
      using Cons.prems by simp_all
    from Cons.IH[OF this] show ?thesis
      using Drain d by (auto simp add: bitmap_tiles_zero split: prod.split)
  qed
qed

text \<open>
  C2. Take any sequence of \<^verbatim>\<open>VideoMarkDirtyOffset\<close>, \<^verbatim>\<open>VideoMarkDirtyRange\<close> and
  \<^verbatim>\<open>collectWriteDirtyTiles\<close> calls, each call as a unit, with write-time tracking on.
  Every drain reports exactly the tiles marked since the drain before it (for the first
  drain, together with the tiles already pending at the start): a marked tile is
  reported by the first drain that starts after the mark, so no mark is lost, and by no
  later drain, unless it is marked again. The count a drain returns is the number of
  tiles in its report. A single drain stores zero in every word of the write bitmap,
  hands the previous words over as the render bitmap and returns their number of set
  bits.
\<close>

theorem drain_completeness:
  assumes "use_write_dirty_tracking s" and "length (write_dirty_tiles s) = BITMAP_WORDS"
    and "length (dirty_tiles s) = BITMAP_WORDS"
    and "unat (frame_buffer_size s) \<le> MAC_SCREEN_WIDTH * MAC_SCREEN_HEIGHT"
  shows "map (\<lambda>(count, bm). bitmap_tiles bm) (fst (run_calls cs s))
           = drained_sets (frame_buffer_size s) (bitmap_tiles (write_dirty_tiles s)) cs
       \<and> list_all (\<lambda>(count, bm). count = int (card (bitmap_tiles bm))) (fst (run_calls cs s))
       \<and> collectWriteDirtyTiles s =
           (int (card (bitmap_tiles (write_dirty_tiles s))),
            s\<lparr>write_dirty_tiles := replicate BITMAP_WORDS 0,
              dirty_tiles := write_dirty_tiles s\<rparr>)"
proof -
  have a: "use_write_dirty_tracking s" "length (write_dirty_tiles s) = 5"
    "length (dirty_tiles s) = 5" "unat (frame_buffer_size s) \<le> 230400"
    using assms by simp_all
  from run_calls_reports[OF a, of cs] collectWriteDirtyTiles_drains[OF a(2,3)]
  show ?thesis by simp
qed

theorem drain_completeness_witness:
  "use_write_dirty_tracking (initial_state\<lparr>frame_buffer_size := 230400\<rparr>)
   \<and> length (write_dirty_tiles (initial_state\<lparr>frame_buffer_size := 230400\<rparr>)) = BITMAP_WORDS
   \<and> length (dirty_tiles (initial_state\<lparr>frame_buffer_size := 230400\<rparr>)) = BITMAP_WORDS
   \<and> unat (frame_buffer_size (initial_state\<lparr>frame_buffer_size := 230400\<rparr>))
       \<le> MAC_SCREEN_WIDTH * MAC_SCREEN_HEIGHT
   \<and> map (\<lambda>(count, bm). bitmap_tiles bm)
        (fst (run_calls [MarkDirtyOffset 0, MarkDirtyRange 25600 4, Drain,
                         MarkDirtyOffset 40, Drain, Drain]
                (initial_state\<lparr>frame_buffer_size := 230400\<rparr>)))
      = [{0, 16}, {1}, {}]"
proof -
  let ?s = "initial_state\<lparr>frame_buffer_size := 230400\<rparr>"
  let ?cs = "[MarkDirtyOffset 0, MarkDirtyRange 25600 4, Drain, MarkDirtyOffset 40, Drain, Drain]"
  have h1: "use_write_dirty_tracking ?s"
    and h2: "length (write_dirty_tiles ?s) = BITMAP_WORDS"
    and h3: "length (dirty_tiles ?s) = BITMAP_WORDS"
    and h4: "unat (frame_buffer_size ?s) \<le> MAC_SCREEN_WIDTH * MAC_SCREEN_HEIGHT"
    by (simp_all add: initial_state_def)
  have e: "bitmap_tiles (write_dirty_tiles ?s) = {}"
    by (auto simp add: bitmap_tiles_iff initial_state_def)
  have t: "offset_tile_idx 0 = 0" "offset_tile_idx 25600 = 16" "offset_tile_idx 25603 = 16"
    "offset_tile_idx 40 = 1"
    by (simp_all add: offset_tile_idx_def tile_index_def)
  have d: "drained_sets (frame_buffer_size ?s) {} ?cs = [{0, 16}, {1}, {}]"
    by (simp add: clamp_size_def t insert_commute)
  have a: "map (\<lambda>(count, bm). bitmap_tiles bm) (fst (run_calls ?cs ?s)) = [{0, 16}, {1}, {}]"
    using drain_completeness[OF h1 h2 h3 h4, of ?cs, THEN conjunct1] unfolding e d .
  show ?thesis
    apply (insert h1 h2 h3 h4 a)
    apply (intro conjI)
    apply assumption+
    done
qed

section \<open>Properties of tile rendering\<close>

lemma length_memcpy [simp]: "length (memcpy dst di src si n) = length dst"
  by (induction n arbitrary: dst di si) simp_all

lemma nth_memcpy:
  assumes "di + n \<le> length dst"
  shows "memcpy dst di src si n ! k =
           (if di \<le> k \<and> k < di + n then src ! (si + (k - di)) else dst ! k)"
  using assms
proof (induction n arbitrary: dst di si)
  case 0
  then show ?case by auto
next
  case (Suc n)
  have "memcpy dst di src si (Suc n) ! k = memcpy (dst[di := src ! si]) (Suc di) src (Suc si) n ! k"
    by simp
  also have "\<dots> = (if Suc di \<le> k \<and> k < Suc di + n then src ! (Suc si + (k - Suc di))
                    else dst[di := src ! si] ! k)"
    using Suc.prems by (intro Suc.IH) simp
  also have "\<dots> = (if di \<le> k \<and> k < di + Suc n then src ! (si + (k - di)) else dst ! k)"
  proof (cases "k = di")
    case True
    then show ?thesis using Suc.prems by simp
  next
    case False
    then show ?thesis by (auto simp add: Suc_diff_Suc)
  qed
  finally show ?case .
qed

lemma length_snapshotTile_rows [simp]:
  "length (snapshotTile_rows src sx sy row dst snap) = length snap"
proof (induction src sx sy row dst snap rule: snapshotTile_rows.induct)
  case (1 src sx sy row dst snap)
  show ?case
  proof (cases "row < TILE_HEIGHT")
    case True
    then show ?thesis
      using "1.IH"[OF True refl] by (subst snapshotTile_rows.simps) (simp add: Let_def)
  next
    case False
    then show ?thesis by (subst snapshotTile_rows.simps) simp
  qed
qed

lemma snapshotTile_rows_nth:
  assumes "dst = row * 40" and "length snap = 1600" and "row \<le> 40"
  shows "snapshotTile_rows src sx sy row dst snap ! k =
           (if row * 40 \<le> k \<and> k < 1600 then src ! ((sy + k div 40) * 640 + sx + k mod 40)
            else snap ! k)"
  using assms
proof (induction src sx sy row dst snap rule: snapshotTile_rows.induct)
  case (1 src sx sy row dst snap)
  show ?case
  proof (cases "row < TILE_HEIGHT")
    case False
    with "1.prems" have "row = 40" by simp
    then show ?thesis by (subst snapshotTile_rows.simps) auto
  next
    case True
    let ?si = "(sy + row) * MAC_SCREEN_WIDTH + sx"
    let ?snap = "memcpy snap dst src ?si TILE_WIDTH"
    have r: "row < 40" using True by simp
    have fits: "dst + TILE_WIDTH \<le> length snap" using "1.prems" r by simp
    have step: "snapshotTile_rows src sx sy row dst snap
                  = snapshotTile_rows src sx sy (row + 1) (dst + TILE_WIDTH) ?snap"
      using True by (subst snapshotTile_rows.simps) (simp add: Let_def)
    have ih: "snapshotTile_rows src sx sy (row + 1) (dst + TILE_WIDTH) ?snap ! k =
           (if (row + 1) * 40 \<le> k \<and> k < 1600
            then src ! ((sy + k div 40) * 640 + sx + k mod 40) else ?snap ! k)"
      using "1.prems" r by (intro "1.IH"[OF True refl]) simp_all
    show ?thesis
    proof (cases "(row + 1) * 40 \<le> k \<and> k < 1600")
      case True
      then show ?thesis unfolding step ih by simp
    next
      case out: False
      have later: "snapshotTile_rows src sx sy (row + 1) (dst + TILE_WIDTH) ?snap ! k = ?snap ! k"
        unfolding ih using out by (rule if_not_P)
      show ?thesis
      proof (cases "row * 40 \<le> k \<and> k < row * 40 + 40")
        case True
        then have q1: "k div 40 = row"
          by (intro div_nat_eqI) simp_all
        have "k mod 40 = k - (k div 40) * 40" by (rule modulo_nat_def)
        with q1 have q2: "k mod 40 = k - row * 40" by simp
        have "dst \<le> k \<and> k < dst + TILE_WIDTH" using True "1.prems"(1) by simp
        then have "?snap ! k = src ! (?si + (k - dst))"
          unfolding nth_memcpy[OF fits, of src ?si k] by (rule if_P)
        also have "\<dots> = src ! ((sy + k div 40) * 640 + sx + k mod 40)"
          using q1 q2 "1.prems"(1) by simp
        finally have cur: "?snap ! k = src ! ((sy + k div 40) * 640 + sx + k mod 40)" .
        have "row * 40 \<le> k \<and> k < 1600" using True r by simp
        then have "(if row * 40 \<le> k \<and> k < 1600
                    then src ! ((sy + k div 40) * 640 + sx + k mod 40) else snap ! k)
                   = src ! ((sy + k div 40) * 640 + sx + k mod 40)"
          by (rule if_P)
        then show ?thesis unfolding step later cur by simp
      next
        case False
        then have "\<not> (dst \<le> k \<and> k < dst + TILE_WIDTH)"
          using "1.prems"(1) by simp
        then have keep: "?snap ! k = snap ! k"
          unfolding nth_memcpy[OF fits, of src ?si k] by (rule if_not_P)
        from False out have "\<not> (row * 40 \<le> k \<and> k < 1600)" by auto
        then have "(if row * 40 \<le> k \<and> k < 1600
                    then src ! ((sy + k div 40) * 640 + sx + k mod 40) else snap ! k)
                   = snap ! k"
          by (rule if_not_P)
        then show ?thesis unfolding step later keep by simp
      qed
    qed
  qed
qed

lemma snapshotTile_nth:
  assumes "length snap = 1600" and "r < 40" and "x < 40"
  shows "snapshotTile src tile_x tile_y snap ! (r * 40 + x)
           = src ! ((tile_y * 40 + r) * 640 + tile_x * 40 + x)"
proof -
  have "(r * 40 + x) div 40 = r" "(r * 40 + x) mod 40 = x" "r * 40 + x < 1600"
    using assms(2,3) by simp_all
  then show ?thesis
    unfolding snapshotTile_def Let_def
    using snapshotTile_rows_nth[of 0 0 snap src "tile_x * TILE_WIDTH" "tile_y * TILE_HEIGHT"
            "r * 40 + x"] assms(1)
    by simp
qed
lemma convert_quads_step:
  assumes "x + 3 < w"
  shows "convert_quads w src pal x si d0 d1 out =
     (let src4 = read_u32 src si;
          c0 = palette_at pal (src4 AND 0xFF);
          c1 = palette_at pal (drop_bit 8 src4 AND 0xFF);
          c2 = palette_at pal (drop_bit 16 src4 AND 0xFF);
          c3 = palette_at pal (drop_bit 24 src4 AND 0xFF);
          out0 = out[d0 := c0, d0 + 1 := c0, d0 + 2 := c1, d0 + 3 := c1,
                     d0 + 4 := c2, d0 + 5 := c2, d0 + 6 := c3, d0 + 7 := c3];
          out1 = out0[d1 := c0, d1 + 1 := c0, d1 + 2 := c1, d1 + 3 := c1,
                      d1 + 4 := c2, d1 + 5 := c2, d1 + 6 := c3, d1 + 7 := c3]
      in convert_quads w src pal (x + 4) (si + 4) (d0 + 8) (d1 + 8) out1)"
  using assms by (subst convert_quads.simps) simp

lemma convert_quads_stop:
  assumes "\<not> x + 3 < w"
  shows "convert_quads w src pal x si d0 d1 out = (x, si, d0, d1, out)"
  using assms by (subst convert_quads.simps) simp

lemma convert_rest_step:
  assumes "x < w"
  shows "convert_rest w src pal x si d0 d1 out =
     (let c = palette_at pal (ucast (src ! si));
          out0 = out[d0 := c, d0 + 1 := c];
          out1 = out0[d1 := c, d1 + 1 := c]
      in convert_rest w src pal (x + 1) (si + 1) (d0 + 2) (d1 + 2) out1)"
  using assms by (subst convert_rest.simps) simp

lemma convert_rest_stop:
  assumes "\<not> x < w"
  shows "convert_rest w src pal x si d0 d1 out = (x, si, d0, d1, out)"
  using assms by (subst convert_rest.simps) simp

lemma convert_quads_advance:
  assumes "convert_quads w src pal x si d0 d1 out = (x', si', r)"
  shows "x \<le> x' \<and> x' \<le> max x w \<and> si' = si + (x' - x)"
  using assms
proof (induction w src pal x si d0 d1 out rule: convert_quads.induct)
  case (1 w src pal x si d0 d1 out)
  show ?case
  proof (cases "x + 3 < w")
    case False
    with "1.prems" show ?thesis by (simp add: convert_quads_stop)
  next
    case True
    from "1.prems" have "x + 4 \<le> x' \<and> x' \<le> max (x + 4) w \<and> si' = si + 4 + (x' - (x + 4))"
      unfolding convert_quads_step[OF True] Let_def
      by (intro "1.IH"[OF True refl refl refl refl refl refl refl])
    with True show ?thesis by auto
  qed
qed

lemma convert_rest_advance:
  assumes "convert_rest w src pal x si d0 d1 out = (x', si', r)"
  shows "x' = max x w \<and> si' = si + (x' - x)"
  using assms
proof (induction w src pal x si d0 d1 out rule: convert_rest.induct)
  case (1 w src pal x si d0 d1 out)
  show ?case
  proof (cases "x < w")
    case False
    with "1.prems" show ?thesis by (simp add: convert_rest_stop)
  next
    case True
    from "1.prems" have "x' = max (x + 1) w \<and> si' = si + 1 + (x' - (x + 1))"
      unfolding convert_rest_step[OF True] Let_def
      by (intro "1.IH"[OF True refl refl refl])
    with True show ?thesis by auto
  qed
qed

lemma read_u32_cong:
  assumes "\<And>k. k < 4 \<Longrightarrow> srcA ! (siA + k) = srcB ! (siB + k)"
  shows "read_u32 srcA siA = read_u32 srcB siB"
  using assms[of 0] assms[of 1] assms[of 2] assms[of 3] by (simp add: read_u32_def)

lemma convert_quads_cong:
  assumes "\<And>k. k < w - x \<Longrightarrow> srcA ! (siA + k) = srcB ! (siB + k)"
  shows "(case convert_quads w srcA pal x siA d0 d1 out of (x', si', r) \<Rightarrow> (x', r))
       = (case convert_quads w srcB pal x siB d0 d1 out of (x', si', r) \<Rightarrow> (x', r))"
  using assms
proof (induction w srcA pal x siA d0 d1 out arbitrary: siB rule: convert_quads.induct)
  case (1 w srcA pal x siA d0 d1 out)
  show ?case
  proof (cases "x + 3 < w")
    case False
    then show ?thesis by (simp add: convert_quads_stop)
  next
    case True
    have rd: "read_u32 srcA siA = read_u32 srcB siB"
      using "1.prems" True by (intro read_u32_cong) simp
    have nxt: "srcA ! (siA + 4 + k) = srcB ! (siB + 4 + k)" if "k < w - (x + 4)" for k
      using "1.prems"[of "k + 4"] that by (simp add: add.commute add.left_commute)
    show ?thesis
      unfolding convert_quads_step[OF True] Let_def rd[symmetric]
      by (rule "1.IH"[OF True refl refl refl refl refl refl refl]) (rule nxt)
  qed
qed

lemma convert_rest_cong:
  assumes "\<And>k. k < w - x \<Longrightarrow> srcA ! (siA + k) = srcB ! (siB + k)"
  shows "(case convert_rest w srcA pal x siA d0 d1 out of (x', si', r) \<Rightarrow> (x', r))
       = (case convert_rest w srcB pal x siB d0 d1 out of (x', si', r) \<Rightarrow> (x', r))"
  using assms
proof (induction w srcA pal x siA d0 d1 out arbitrary: siB rule: convert_rest.induct)
  case (1 w srcA pal x siA d0 d1 out)
  show ?case
  proof (cases "x < w")
    case False
    then show ?thesis by (simp add: convert_rest_stop)
  next
    case True
    have rd: "srcA ! siA = srcB ! siB"
      using "1.prems"[of 0] True by simp
    have nxt: "srcA ! (siA + 1 + k) = srcB ! (siB + 1 + k)" if "k < w - (x + 1)" for k
      using "1.prems"[of "k + 1"] that by (simp add: add.commute add.left_commute)
    show ?thesis
      unfolding convert_rest_step[OF True] Let_def rd[symmetric]
      by (rule "1.IH"[OF True refl refl refl]) (rule nxt)
  qed
qed

lemma convert_row_fst: "fst (convert_row w src pal si d0 d1 out) = si + w"
proof -
  obtain x si1 r where q: "convert_quads w src pal 0 si d0 d1 out = (x, si1, r)"
    by (cases "convert_quads w src pal 0 si d0 d1 out")
  obtain d0' d1' out1 where r: "r = (d0', d1', out1)" by (cases r)
  obtain x' si2 r' where p: "convert_rest w src pal x si1 d0' d1' out1 = (x', si2, r')"
    by (cases "convert_rest w src pal x si1 d0' d1' out1")
  obtain d0'' d1'' out2 where r': "r' = (d0'', d1'', out2)" by (cases r')
  from convert_quads_advance[OF q] have a: "x \<le> w" "si1 = si + x" by simp_all
  from convert_rest_advance[OF p] a have "si2 = si + w" by (simp add: max_def)
  then show ?thesis by (simp add: convert_row_def q r p r')
qed

lemma convert_row_cong:
  assumes "\<And>k. k < w \<Longrightarrow> srcA ! (siA + k) = srcB ! (siB + k)"
  shows "snd (convert_row w srcA pal siA d0 d1 out) = snd (convert_row w srcB pal siB d0 d1 out)"
proof -
  obtain x sA r where qa: "convert_quads w srcA pal 0 siA d0 d1 out = (x, sA, r)"
    by (cases "convert_quads w srcA pal 0 siA d0 d1 out")
  obtain xb sB rb where qb: "convert_quads w srcB pal 0 siB d0 d1 out = (xb, sB, rb)"
    by (cases "convert_quads w srcB pal 0 siB d0 d1 out")
  have "(x, r) = (xb, rb)"
    using convert_quads_cong[of w 0 srcA siA srcB siB pal d0 d1 out] assms qa qb by simp
  then have e: "xb = x" "rb = r" by simp_all
  obtain d0' d1' out1 where r: "r = (d0', d1', out1)" by (cases r)
  from convert_quads_advance[OF qa] have a: "x \<le> w" "sA = siA + x" by simp_all
  from convert_quads_advance[OF qb] e have b: "sB = siB + x" by simp
  have reads: "srcA ! (sA + k) = srcB ! (sB + k)" if "k < w - x" for k
    using assms[of "x + k"] that a b by (simp add: add.assoc)
  obtain x' sA' ra where pa: "convert_rest w srcA pal x sA d0' d1' out1 = (x', sA', ra)"
    by (cases "convert_rest w srcA pal x sA d0' d1' out1")
  obtain xb' sB' rb' where pb: "convert_rest w srcB pal x sB d0' d1' out1 = (xb', sB', rb')"
    by (cases "convert_rest w srcB pal x sB d0' d1' out1")
  have "(x', ra) = (xb', rb')"
    using convert_rest_cong[of w x srcA sA srcB sB pal d0' d1' out1] reads pa pb by simp
  then have "rb' = ra" by simp
  then show ?thesis
    by (cases ra) (simp add: convert_row_def qa qb e r pa pb)
qed
lemma renderTileToBuffer_rows_step:
  assumes "row < 40"
  shows "renderTileToBuffer_rows src sx sy pal row outp out =
           renderTileToBuffer_rows src sx sy pal (row + 1) (outp + 160)
             (snd (convert_row 40 src pal ((sy + row) * 640 + sx) outp (outp + 80) out))"
  using assms by (subst renderTileToBuffer_rows.simps) (simp add: Let_def)

lemma renderTileFromSnapshot_rows_step:
  assumes "row < 40"
  shows "renderTileFromSnapshot_rows snap pal row si outp out =
           renderTileFromSnapshot_rows snap pal (row + 1) (si + 40) (outp + 160)
             (snd (convert_row 40 snap pal si outp (outp + 80) out))"
proof -
  obtain si' out' where c: "convert_row 40 snap pal si outp (outp + 80) out = (si', out')"
    by (cases "convert_row 40 snap pal si outp (outp + 80) out")
  have "si' = si + 40"
    using convert_row_fst[of 40 snap pal si outp "outp + 80" out] c by simp
  then show ?thesis
    using assms c by (subst renderTileFromSnapshot_rows.simps) (simp add: Let_def)
qed

lemma render_rows_agree:
  assumes "\<And>r x. r < 40 \<Longrightarrow> x < 40 \<Longrightarrow> snap ! (r * 40 + x) = src ! ((sy + r) * 640 + sx + x)"
    and "si = row * 40"
  shows "renderTileFromSnapshot_rows snap pal row si outp out
           = renderTileToBuffer_rows src sx sy pal row outp out"
  using assms
proof (induction src sx sy pal row outp out arbitrary: si rule: renderTileToBuffer_rows.induct)
  case (1 src_buffer src_start_x src_start_y local_palette row outp out)
  show ?case
  proof (cases "row < 40")
    case False
    then show ?thesis
      by (subst renderTileFromSnapshot_rows.simps, subst renderTileToBuffer_rows.simps) simp
  next
    case True
    have row_eq: "snd (convert_row 40 snap local_palette si outp (outp + 80) out)
        = snd (convert_row 40 src_buffer local_palette
                 ((src_start_y + row) * 640 + src_start_x) outp (outp + 80) out)"
    proof (rule convert_row_cong)
      fix k :: nat
      assume "k < 40"
      then show "snap ! (si + k) = src_buffer ! ((src_start_y + row) * 640 + src_start_x + k)"
        using "1.prems"(1)[of row k] "1.prems"(2) True by simp
    qed
    have t: "row < TILE_HEIGHT" using True by simp
    have ih: "renderTileFromSnapshot_rows snap local_palette (row + 1) (si + 40) (outp + 160) out'
        = renderTileToBuffer_rows src_buffer src_start_x src_start_y local_palette (row + 1)
            (outp + 160) out'"
      if "out' = snd (convert_row 40 src_buffer local_palette
                 ((src_start_y + row) * 640 + src_start_x) outp (outp + 80) out)" for out'
      using "1.IH"[OF t refl refl refl refl refl refl "1.prems"(1), of "si + 40"]
        "1.prems"(2) that
      by simp
    show ?thesis
      unfolding renderTileFromSnapshot_rows_step[OF True] renderTileToBuffer_rows_step[OF True]
        row_eq
      by (rule ih) (rule refl)
  qed
qed

lemma read_u32_bytes:
  "read_u32 buf i AND 0xFF = ucast (buf ! i)"
  "drop_bit 8 (read_u32 buf i) AND 0xFF = ucast (buf ! (i + 1))"
  "drop_bit 16 (read_u32 buf i) AND 0xFF = ucast (buf ! (i + 2))"
  "drop_bit 24 (read_u32 buf i) AND 0xFF = ucast (buf ! (i + 3))"
proof -
  have m: "(0xFF :: uint32) = mask 8" by (simp add: mask_eq_exp_minus_1)
  show "read_u32 buf i AND 0xFF = ucast (buf ! i)"
    unfolding read_u32_def m
    apply (rule bit_word_eqI)
    apply (simp add: bit_simps)
    apply (auto dest: bit_imp_le_length)
    done
  show "drop_bit 8 (read_u32 buf i) AND 0xFF = ucast (buf ! (i + 1))"
    unfolding read_u32_def m
    apply (rule bit_word_eqI)
    apply (simp add: bit_simps)
    apply (auto dest: bit_imp_le_length)
    done
  show "drop_bit 16 (read_u32 buf i) AND 0xFF = ucast (buf ! (i + 2))"
    unfolding read_u32_def m
    apply (rule bit_word_eqI)
    apply (simp add: bit_simps)
    apply (auto dest: bit_imp_le_length)
    done
  show "drop_bit 24 (read_u32 buf i) AND 0xFF = ucast (buf ! (i + 3))"
    unfolding read_u32_def m
    apply (rule bit_word_eqI)
    apply (simp add: bit_simps)
    apply (auto dest: bit_imp_le_length)
    done
qed

lemma palette_at_byte: "palette_at pal (ucast (b :: uint8)) = pal ! unat b"
proof -
  have "unat b < 2 ^ 8" using unsigned_less[of b] by simp
  then have "unat b < 2 ^ 32" by simp
  then have "unat (ucast b :: uint32) = unat b"
    by (simp add: unsigned_ucast_eq take_bit_nat_eq_self)
  then show ?thesis by (simp add: palette_at_def)
qed

lemma quad_store_nth:
  assumes "d0 + 8 \<le> d1" and "d1 + 8 \<le> length out"
  shows "out[d0 := c0, d0 + 1 := c0, d0 + 2 := c1, d0 + 3 := c1,
             d0 + 4 := c2, d0 + 5 := c2, d0 + 6 := c3, d0 + 7 := c3,
             d1 := c0, d1 + 1 := c0, d1 + 2 := c1, d1 + 3 := c1,
             d1 + 4 := c2, d1 + 5 := c2, d1 + 6 := c3, d1 + 7 := c3] ! j
         = (if d0 \<le> j \<and> j < d0 + 8 then [c0, c1, c2, c3] ! ((j - d0) div 2)
            else if d1 \<le> j \<and> j < d1 + 8 then [c0, c1, c2, c3] ! ((j - d1) div 2)
            else out ! j)"
proof -
  consider (before) "j < d0" | (row0) "d0 \<le> j" "j < d0 + 8" | (between) "d0 + 8 \<le> j" "j < d1"
    | (row1) "d1 \<le> j" "j < d1 + 8" | (after) "d1 + 8 \<le> j"
    by linarith
  then show ?thesis
  proof cases
    case before
    then show ?thesis using assms by simp
  next
    case between
    then show ?thesis using assms by simp
  next
    case after
    then show ?thesis using assms by simp
  next
    case row0
    then obtain k where k: "j = d0 + k" "k < 8" by (metis le_Suc_ex nat_add_left_cancel_less)
    then have "k = 0 \<or> k = 1 \<or> k = 2 \<or> k = 3 \<or> k = 4 \<or> k = 5 \<or> k = 6 \<or> k = 7" by linarith
    then show ?thesis using assms k(1) by (elim disjE) simp_all
  next
    case row1
    then obtain k where k: "j = d1 + k" "k < 8" by (metis le_Suc_ex nat_add_left_cancel_less)
    then have "k = 0 \<or> k = 1 \<or> k = 2 \<or> k = 3 \<or> k = 4 \<or> k = 5 \<or> k = 6 \<or> k = 7" by linarith
    then show ?thesis using assms k(1) by (elim disjE) simp_all
  qed
qed

lemma convert_quads_nth:
  assumes "convert_quads w src pal x si d0 d1 out = (x', si', d0', d1', out')"
    and "x \<le> w" and "d0 + 2 * (w - x) \<le> d1" and "d1 + 2 * (w - x) \<le> length out"
  shows "d0' = d0 + 2 * (x' - x) \<and> d1' = d1 + 2 * (x' - x) \<and> length out' = length out
       \<and> (\<forall>j. out' ! j =
             (if d0 \<le> j \<and> j < d0 + 2 * (x' - x) then pal ! unat (src ! (si + (j - d0) div 2))
              else if d1 \<le> j \<and> j < d1 + 2 * (x' - x)
                then pal ! unat (src ! (si + (j - d1) div 2))
              else out ! j))"
  using assms
proof (induction w src pal x si d0 d1 out rule: convert_quads.induct)
  case (1 w src pal x si d0 d1 out)
  show ?case
  proof (cases "x + 3 < w")
    case False
    with "1.prems"(1) show ?thesis by (auto simp add: convert_quads_stop)
  next
    case True
    let ?src4 = "read_u32 src si"
    let ?c0 = "palette_at pal (?src4 AND 0xFF)"
    let ?c1 = "palette_at pal (drop_bit 8 ?src4 AND 0xFF)"
    let ?c2 = "palette_at pal (drop_bit 16 ?src4 AND 0xFF)"
    let ?c3 = "palette_at pal (drop_bit 24 ?src4 AND 0xFF)"
    let ?out1 = "out[d0 := ?c0, d0 + 1 := ?c0, d0 + 2 := ?c1, d0 + 3 := ?c1,
                     d0 + 4 := ?c2, d0 + 5 := ?c2, d0 + 6 := ?c3, d0 + 7 := ?c3,
                     d1 := ?c0, d1 + 1 := ?c0, d1 + 2 := ?c1, d1 + 3 := ?c1,
                     d1 + 4 := ?c2, d1 + 5 := ?c2, d1 + 6 := ?c3, d1 + 7 := ?c3]"
    define out1 where "out1 = ?out1"
    have call: "convert_quads w src pal (x + 4) (si + 4) (d0 + 8) (d1 + 8) out1
                  = (x', si', d0', d1', out')"
      using "1.prems"(1) unfolding convert_quads_step[OF True] Let_def out1_def .
    have adv: "x + 4 \<le> x'" "x' \<le> w"
      using convert_quads_advance[OF call] True by auto
    have room: "d0 + 8 \<le> d1" "d1 + 8 \<le> length out"
      using "1.prems"(3,4) True by simp_all
    have len1: "length out1 = length out" by (simp add: out1_def)
    have ih: "d0' = d0 + 8 + 2 * (x' - (x + 4)) \<and> d1' = d1 + 8 + 2 * (x' - (x + 4))
       \<and> length out' = length out1
       \<and> (\<forall>j. out' ! j =
             (if d0 + 8 \<le> j \<and> j < d0 + 8 + 2 * (x' - (x + 4))
                then pal ! unat (src ! (si + 4 + (j - (d0 + 8)) div 2))
              else if d1 + 8 \<le> j \<and> j < d1 + 8 + 2 * (x' - (x + 4))
                then pal ! unat (src ! (si + 4 + (j - (d1 + 8)) div 2))
              else out1 ! j))"
      unfolding out1_def
      using "1.prems"(3,4) True call[unfolded out1_def]
      by (intro "1.IH"[OF True refl refl refl refl refl refl refl]) simp_all
    have cs: "[?c0, ?c1, ?c2, ?c3] ! k = pal ! unat (src ! (si + k))" if "k < 4" for k
    proof -
      from that have "k = 0 \<or> k = 1 \<or> k = 2 \<or> k = 3" by linarith
      then show ?thesis
        by (elim disjE) (simp_all add: read_u32_bytes palette_at_byte)
    qed
    have o1: "out1 ! j =
         (if d0 \<le> j \<and> j < d0 + 8 then pal ! unat (src ! (si + (j - d0) div 2))
          else if d1 \<le> j \<and> j < d1 + 8 then pal ! unat (src ! (si + (j - d1) div 2))
          else out ! j)" for j
    proof -
      have a: "(j - d0) div 2 < 4" if "d0 \<le> j \<and> j < d0 + 8" using that by linarith
      have b: "(j - d1) div 2 < 4" if "d1 \<le> j \<and> j < d1 + 8" using that by linarith
      show ?thesis
        unfolding out1_def quad_store_nth[OF room] using cs[OF a] cs[OF b] by simp
    qed
    have e0: "d0 + 8 + 2 * (x' - (x + 4)) = d0 + 2 * (x' - x)"
      and e1: "d1 + 8 + 2 * (x' - (x + 4)) = d1 + 2 * (x' - x)"
      using adv by simp_all
    have sep: "d0 + 2 * (x' - x) \<le> d1" using "1.prems"(3) adv by simp
    have big: "8 \<le> 2 * (x' - x)" using adv by simp
    have nth: "out' ! j =
             (if d0 \<le> j \<and> j < d0 + 2 * (x' - x) then pal ! unat (src ! (si + (j - d0) div 2))
              else if d1 \<le> j \<and> j < d1 + 2 * (x' - x)
                then pal ! unat (src ! (si + (j - d1) div 2))
              else out ! j)" for j
    proof -
      have ihj: "out' ! j =
             (if d0 + 8 \<le> j \<and> j < d0 + 2 * (x' - x)
                then pal ! unat (src ! (si + 4 + (j - (d0 + 8)) div 2))
              else if d1 + 8 \<le> j \<and> j < d1 + 2 * (x' - x)
                then pal ! unat (src ! (si + 4 + (j - (d1 + 8)) div 2))
              else out1 ! j)"
        using ih[THEN conjunct2, THEN conjunct2, THEN conjunct2, rule_format, of j]
        unfolding e0 e1 .
      have i0: "si + 4 + (j - (d0 + 8)) div 2 = si + (j - d0) div 2" if "d0 + 8 \<le> j"
      proof -
        from that obtain m where "j = d0 + 8 + m" by (metis le_Suc_ex)
        then show ?thesis by simp
      qed
      have i1: "si + 4 + (j - (d1 + 8)) div 2 = si + (j - d1) div 2" if "d1 + 8 \<le> j"
      proof -
        from that obtain m where "j = d1 + 8 + m" by (metis le_Suc_ex)
        then show ?thesis by simp
      qed
      consider (r0a) "d0 \<le> j" "j < d0 + 8"
        | (r0b) "d0 + 8 \<le> j" "j < d0 + 2 * (x' - x)"
        | (r1a) "d1 \<le> j" "j < d1 + 8"
        | (r1b) "d1 + 8 \<le> j" "j < d1 + 2 * (x' - x)"
        | (none) "\<not> (d0 \<le> j \<and> j < d0 + 2 * (x' - x))" "\<not> (d1 \<le> j \<and> j < d1 + 2 * (x' - x))"
        using big by linarith
      then show ?thesis
      proof cases
        case r0a
        have c: "\<not> (d0 + 8 \<le> j \<and> j < d0 + 2 * (x' - x))"
          "\<not> (d1 + 8 \<le> j \<and> j < d1 + 2 * (x' - x))"
          "d0 \<le> j \<and> j < d0 + 8" "d0 \<le> j \<and> j < d0 + 2 * (x' - x)"
          using r0a room big by linarith+
        show ?thesis
          unfolding ihj o1 if_not_P[OF c(1)] if_not_P[OF c(2)] if_P[OF c(3)] if_P[OF c(4)] ..
      next
        case r0b
        have c: "d0 + 8 \<le> j \<and> j < d0 + 2 * (x' - x)" "d0 \<le> j \<and> j < d0 + 2 * (x' - x)"
          using r0b by linarith+
        show ?thesis
          unfolding ihj if_P[OF c(1)] if_P[OF c(2)] i0[OF r0b(1)] ..
      next
        case r1a
        have c: "\<not> (d0 + 8 \<le> j \<and> j < d0 + 2 * (x' - x))"
          "\<not> (d1 + 8 \<le> j \<and> j < d1 + 2 * (x' - x))"
          "\<not> (d0 \<le> j \<and> j < d0 + 8)" "d1 \<le> j \<and> j < d1 + 8"
          "\<not> (d0 \<le> j \<and> j < d0 + 2 * (x' - x))" "d1 \<le> j \<and> j < d1 + 2 * (x' - x)"
          using r1a room big sep by linarith+
        show ?thesis
          unfolding ihj o1 if_not_P[OF c(1)] if_not_P[OF c(2)] if_not_P[OF c(3)] if_P[OF c(4)]
            if_not_P[OF c(5)] if_P[OF c(6)] ..
      next
        case r1b
        have c: "\<not> (d0 + 8 \<le> j \<and> j < d0 + 2 * (x' - x))"
          "d1 + 8 \<le> j \<and> j < d1 + 2 * (x' - x)"
          "\<not> (d0 \<le> j \<and> j < d0 + 2 * (x' - x))" "d1 \<le> j \<and> j < d1 + 2 * (x' - x)"
          using r1b sep by linarith+
        show ?thesis
          unfolding ihj if_not_P[OF c(1)] if_P[OF c(2)] if_not_P[OF c(3)] if_P[OF c(4)]
            i1[OF r1b(1)] ..
      next
        case none
        have c: "\<not> (d0 + 8 \<le> j \<and> j < d0 + 2 * (x' - x))"
          "\<not> (d1 + 8 \<le> j \<and> j < d1 + 2 * (x' - x))"
          "\<not> (d0 \<le> j \<and> j < d0 + 8)" "\<not> (d1 \<le> j \<and> j < d1 + 8)"
          using none big by linarith+
        show ?thesis
          unfolding ihj o1 if_not_P[OF c(1)] if_not_P[OF c(2)] if_not_P[OF c(3)]
            if_not_P[OF c(4)] if_not_P[OF none(1)] if_not_P[OF none(2)] ..
      qed
    qed
    have "d0' = d0 + 2 * (x' - x)" "d1' = d1 + 2 * (x' - x)" "length out' = length out"
      using ih e0 e1 len1 by simp_all
    with nth show ?thesis by blast
  qed
qed

lemma scaled_row_compose:
  assumes "\<And>j. out1 ! j = scaled_row src pal si d0 d1 n1 out j"
    and "d0 + 2 * (n1 + n2) \<le> d1"
  shows "scaled_row src pal (si + n1) (d0 + 2 * n1) (d1 + 2 * n1) n2 out1 j
           = scaled_row src pal si d0 d1 (n1 + n2) out j"
proof -
  have i0: "si + n1 + (j - (d0 + 2 * n1)) div 2 = si + (j - d0) div 2" if "d0 + 2 * n1 \<le> j"
  proof -
    from that obtain m where "j = d0 + 2 * n1 + m" by (metis le_Suc_ex)
    then show ?thesis by simp
  qed
  have i1: "si + n1 + (j - (d1 + 2 * n1)) div 2 = si + (j - d1) div 2" if "d1 + 2 * n1 \<le> j"
  proof -
    from that obtain m where "j = d1 + 2 * n1 + m" by (metis le_Suc_ex)
    then show ?thesis by simp
  qed
  consider (r0a) "d0 \<le> j" "j < d0 + 2 * n1"
    | (r0b) "d0 + 2 * n1 \<le> j" "j < d0 + 2 * (n1 + n2)"
    | (r1a) "d1 \<le> j" "j < d1 + 2 * n1"
    | (r1b) "d1 + 2 * n1 \<le> j" "j < d1 + 2 * (n1 + n2)"
    | (none) "\<not> (d0 \<le> j \<and> j < d0 + 2 * (n1 + n2))" "\<not> (d1 \<le> j \<and> j < d1 + 2 * (n1 + n2))"
    by linarith
  then show ?thesis
  proof cases
    case r0a
    have c: "\<not> (d0 + 2 * n1 \<le> j \<and> j < d0 + 2 * n1 + 2 * n2)"
      "\<not> (d1 + 2 * n1 \<le> j \<and> j < d1 + 2 * n1 + 2 * n2)"
      "d0 \<le> j \<and> j < d0 + 2 * n1" "d0 \<le> j \<and> j < d0 + 2 * (n1 + n2)"
      using r0a assms(2) by auto
    show ?thesis
      unfolding scaled_row_def[of src pal "si + n1"] assms(1) if_not_P[OF c(1)] if_not_P[OF c(2)]
      unfolding scaled_row_def if_P[OF c(3)] if_P[OF c(4)] ..
  next
    case r0b
    have c: "d0 + 2 * n1 \<le> j \<and> j < d0 + 2 * n1 + 2 * n2" "d0 \<le> j \<and> j < d0 + 2 * (n1 + n2)"
      using r0b by auto
    show ?thesis
      unfolding scaled_row_def if_P[OF c(1)] if_P[OF c(2)] i0[OF r0b(1)] ..
  next
    case r1a
    have c: "\<not> (d0 + 2 * n1 \<le> j \<and> j < d0 + 2 * n1 + 2 * n2)"
      "\<not> (d1 + 2 * n1 \<le> j \<and> j < d1 + 2 * n1 + 2 * n2)"
      "\<not> (d0 \<le> j \<and> j < d0 + 2 * n1)" "d1 \<le> j \<and> j < d1 + 2 * n1"
      "\<not> (d0 \<le> j \<and> j < d0 + 2 * (n1 + n2))" "d1 \<le> j \<and> j < d1 + 2 * (n1 + n2)"
      using r1a assms(2) by auto
    show ?thesis
      unfolding scaled_row_def[of src pal "si + n1"] assms(1) if_not_P[OF c(1)] if_not_P[OF c(2)]
      unfolding scaled_row_def if_not_P[OF c(3)] if_P[OF c(4)] if_not_P[OF c(5)] if_P[OF c(6)] ..
  next
    case r1b
    have c: "\<not> (d0 + 2 * n1 \<le> j \<and> j < d0 + 2 * n1 + 2 * n2)"
      "d1 + 2 * n1 \<le> j \<and> j < d1 + 2 * n1 + 2 * n2"
      "\<not> (d0 \<le> j \<and> j < d0 + 2 * (n1 + n2))" "d1 \<le> j \<and> j < d1 + 2 * (n1 + n2)"
      using r1b assms(2) by auto
    show ?thesis
      unfolding scaled_row_def if_not_P[OF c(1)] if_P[OF c(2)] if_not_P[OF c(3)] if_P[OF c(4)]
        i1[OF r1b(1)] ..
  next
    case none
    have c: "\<not> (d0 + 2 * n1 \<le> j \<and> j < d0 + 2 * n1 + 2 * n2)"
      "\<not> (d1 + 2 * n1 \<le> j \<and> j < d1 + 2 * n1 + 2 * n2)"
      "\<not> (d0 \<le> j \<and> j < d0 + 2 * n1)" "\<not> (d1 \<le> j \<and> j < d1 + 2 * n1)"
      using none by auto
    show ?thesis
      unfolding scaled_row_def[of src pal "si + n1"] assms(1) if_not_P[OF c(1)] if_not_P[OF c(2)]
      unfolding scaled_row_def if_not_P[OF c(3)] if_not_P[OF c(4)] if_not_P[OF none(1)]
        if_not_P[OF none(2)] ..
  qed
qed

lemma scaled_row_nothing: "scaled_row src pal si d0 d1 0 out j = out ! j"
  by (auto simp add: scaled_row_def)

lemma convert_quads_scaled:
  assumes "convert_quads w src pal x si d0 d1 out = (x', si', d0', d1', out')"
    and "x \<le> w" and "d0 + 2 * (w - x) \<le> d1" and "d1 + 2 * (w - x) \<le> length out"
  shows "d0' = d0 + 2 * (x' - x)" and "d1' = d1 + 2 * (x' - x)" and "length out' = length out"
    and "out' ! j = scaled_row src pal si d0 d1 (x' - x) out j"
  using convert_quads_nth[OF assms] by (simp_all add: scaled_row_def)

lemma pair_store_nth:
  assumes "d0 + 2 \<le> d1" and "d1 + 2 \<le> length out"
  shows "out[d0 := c, d0 + 1 := c, d1 := c, d1 + 1 := c] ! j
           = (if d0 \<le> j \<and> j < d0 + 2 then c else if d1 \<le> j \<and> j < d1 + 2 then c else out ! j)"
proof -
  consider (before) "j < d0" | (a) "j = d0" | (b) "j = d0 + 1" | (between) "d0 + 2 \<le> j" "j < d1"
    | (c) "j = d1" | (d) "j = d1 + 1" | (after) "d1 + 2 \<le> j"
    by linarith
  then show ?thesis using assms by cases simp_all
qed

lemma convert_rest_scaled:
  assumes "convert_rest w src pal x si d0 d1 out = (x', si', d0', d1', out')"
    and "x \<le> w" and "d0 + 2 * (w - x) \<le> d1" and "d1 + 2 * (w - x) \<le> length out"
  shows "x' = w \<and> d0' = d0 + 2 * (w - x) \<and> d1' = d1 + 2 * (w - x) \<and> length out' = length out
       \<and> (\<forall>j. out' ! j = scaled_row src pal si d0 d1 (w - x) out j)"
  using assms
proof (induction w src pal x si d0 d1 out rule: convert_rest.induct)
  case (1 w src pal x si d0 d1 out)
  show ?case
  proof (cases "x < w")
    case False
    with "1.prems"(1,2) show ?thesis by (simp add: convert_rest_stop scaled_row_nothing)
  next
    case True
    let ?c = "palette_at pal (ucast (src ! si))"
    define out1 where "out1 = out[d0 := ?c, d0 + 1 := ?c, d1 := ?c, d1 + 1 := ?c]"
    have call: "convert_rest w src pal (x + 1) (si + 1) (d0 + 2) (d1 + 2) out1
                  = (x', si', d0', d1', out')"
      using "1.prems"(1) unfolding convert_rest_step[OF True] Let_def out1_def .
    have room: "d0 + 2 \<le> d1" "d1 + 2 \<le> length out"
      using "1.prems"(3,4) True by simp_all
    have len1: "length out1 = length out" by (simp add: out1_def)
    have ih: "x' = w \<and> d0' = d0 + 2 + 2 * (w - (x + 1)) \<and> d1' = d1 + 2 + 2 * (w - (x + 1))
       \<and> length out' = length out1
       \<and> (\<forall>j. out' ! j = scaled_row src pal (si + 1) (d0 + 2) (d1 + 2) (w - (x + 1)) out1 j)"
      unfolding out1_def
      using "1.prems"(3,4) True call[unfolded out1_def]
      by (intro "1.IH"[OF True refl refl refl]) simp_all
    have o1: "out1 ! j = scaled_row src pal si d0 d1 1 out j" for j
    proof -
      have "(j - d0) div 2 = 0" if "d0 \<le> j \<and> j < d0 + 2" using that by linarith
      moreover have "(j - d1) div 2 = 0" if "d1 \<le> j \<and> j < d1 + 2" using that by linarith
      ultimately show ?thesis
        unfolding out1_def pair_store_nth[OF room] scaled_row_def
        by (simp add: palette_at_byte)
    qed
    have n: "1 + (w - (x + 1)) = w - x" using True by simp
    have sep: "d0 + 2 * (1 + (w - (x + 1))) \<le> d1" using "1.prems"(3) n by simp
    have nth: "out' ! j = scaled_row src pal si d0 d1 (w - x) out j" for j
      using ih scaled_row_compose[of out1 src pal si d0 d1 1 out "w - (x + 1)" j, OF o1 sep]
      unfolding n by simp
    have "d0' = d0 + 2 * (w - x)" "d1' = d1 + 2 * (w - x)" "length out' = length out" "x' = w"
      using ih len1 True by simp_all
    with nth show ?thesis by blast
  qed
qed

lemma convert_row_scaled:
  assumes "d0 + 2 * w \<le> d1" and "d1 + 2 * w \<le> length out"
  shows "snd (convert_row w src pal si d0 d1 out) ! j = scaled_row src pal si d0 d1 w out j"
    and "length (snd (convert_row w src pal si d0 d1 out)) = length out"
proof -
  obtain x si1 d0' d1' out1 where q: "convert_quads w src pal 0 si d0 d1 out = (x, si1, d0', d1', out1)"
    by (cases "convert_quads w src pal 0 si d0 d1 out")
  obtain x' si2 d0'' d1'' out2 where
    p: "convert_rest w src pal x si1 d0' d1' out1 = (x', si2, d0'', d1'', out2)"
    by (cases "convert_rest w src pal x si1 d0' d1' out1")
  have a: "x \<le> w" "si1 = si + x" using convert_quads_advance[OF q] by simp_all
  have h: "0 \<le> w" "d0 + 2 * (w - 0) \<le> d1" "d1 + 2 * (w - 0) \<le> length out"
    using assms by simp_all
  note qs = convert_quads_scaled[OF q h]
  have d: "d0' = d0 + 2 * x" "d1' = d1 + 2 * x" "length out1 = length out"
    using qs(1,2,3) by simp_all
  have o1: "out1 ! j = scaled_row src pal si d0 d1 x out j" for j
    using qs(4)[of j] by simp
  have h2: "d0' + 2 * (w - x) \<le> d1'" "d1' + 2 * (w - x) \<le> length out1"
    using assms a d by simp_all
  note rs = convert_rest_scaled[OF p a(1) h2]
  have n: "x + (w - x) = w" using a by simp
  have sep: "d0 + 2 * (x + (w - x)) \<le> d1" using assms(1) n by simp
  have "out2 ! j = scaled_row src pal si1 d0' d1' (w - x) out1 j" using rs by simp
  also have "\<dots> = scaled_row src pal si d0 d1 w out j"
    unfolding a(2) d(1,2)
    using scaled_row_compose[of out1 src pal si d0 d1 x out "w - x" j, OF o1 sep]
    unfolding n .
  finally show "snd (convert_row w src pal si d0 d1 out) ! j = scaled_row src pal si d0 d1 w out j"
    by (simp add: convert_row_def q p)
  show "length (snd (convert_row w src pal si d0 d1 out)) = length out"
    using rs d(3) by (simp add: convert_row_def q p)
qed

lemma renderTileToBuffer_rows_nth:
  assumes "outp = row * 160" and "length out = 6400" and "row \<le> 40"
  shows "length (renderTileToBuffer_rows src sx sy pal row outp out) = 6400
       \<and> (\<forall>j. renderTileToBuffer_rows src sx sy pal row outp out ! j =
             (if row * 160 \<le> j \<and> j < 6400
              then pal ! unat (src ! ((sy + j div 160) * 640 + sx + (j mod 80) div 2))
              else out ! j))"
  using assms
proof (induction src sx sy pal row outp out rule: renderTileToBuffer_rows.induct)
  case (1 src sx sy pal row outp out)
  show ?case
  proof (cases "row < 40")
    case False
    with "1.prems" have "row = 40" by simp
    then show ?thesis
      using "1.prems"(2) by (subst (1 2) renderTileToBuffer_rows.simps) auto
  next
    case True
    let ?si = "(sy + row) * 640 + sx"
    define out1 where "out1 = snd (convert_row 40 src pal ?si outp (outp + 80) out)"
    have room: "outp + 2 * 40 \<le> outp + 80" "outp + 80 + 2 * 40 \<le> length out"
      using "1.prems" True by simp_all
    have o1: "out1 ! j = scaled_row src pal ?si outp (outp + 80) 40 out j" for j
      unfolding out1_def by (rule convert_row_scaled(1)[OF room])
    have len1: "length out1 = 6400"
      unfolding out1_def using convert_row_scaled(2)[OF room] "1.prems"(2) by simp
    have step: "renderTileToBuffer_rows src sx sy pal row outp out
                  = renderTileToBuffer_rows src sx sy pal (row + 1) (outp + 160) out1"
      unfolding out1_def by (rule renderTileToBuffer_rows_step[OF True])
    have t: "row < TILE_HEIGHT" using True by simp
    have ih: "length (renderTileToBuffer_rows src sx sy pal (row + 1) (outp + 160) out1) = 6400
       \<and> (\<forall>j. renderTileToBuffer_rows src sx sy pal (row + 1) (outp + 160) out1 ! j =
             (if (row + 1) * 160 \<le> j \<and> j < 6400
              then pal ! unat (src ! ((sy + j div 160) * 640 + sx + (j mod 80) div 2))
              else out1 ! j))"
    proof -
      have "outp + TILE_WIDTH * PIXEL_SCALE * 2 = (row + 1) * 160"
        using "1.prems"(1) by simp
      moreover have "length (snd (convert_row TILE_WIDTH src pal
            ((sy + row) * MAC_SCREEN_WIDTH + sx) outp (outp + TILE_WIDTH * PIXEL_SCALE) out)) = 6400"
        using len1 by (simp add: out1_def)
      moreover have "row + 1 \<le> 40" using True by simp
      ultimately show ?thesis
        using "1.IH"[OF t refl refl refl refl refl refl] by (simp add: out1_def)
    qed
    have nth: "renderTileToBuffer_rows src sx sy pal row outp out ! j =
             (if row * 160 \<le> j \<and> j < 6400
              then pal ! unat (src ! ((sy + j div 160) * 640 + sx + (j mod 80) div 2))
              else out ! j)" for j
    proof -
      have ihj: "renderTileToBuffer_rows src sx sy pal row outp out ! j =
             (if (row + 1) * 160 \<le> j \<and> j < 6400
              then pal ! unat (src ! ((sy + j div 160) * 640 + sx + (j mod 80) div 2))
              else out1 ! j)"
        unfolding step using ih by blast
      have e: "(row + 1) * 160 = row * 160 + 160" by simp
      consider (later) "(row + 1) * 160 \<le> j" "j < 6400"
        | (first) "row * 160 \<le> j" "j < row * 160 + 80"
        | (second) "row * 160 + 80 \<le> j" "j < row * 160 + 160"
        | (none) "\<not> (row * 160 \<le> j \<and> j < 6400)"
        unfolding e by linarith
      then show ?thesis
      proof cases
        case later
        then have c: "(row + 1) * 160 \<le> j \<and> j < 6400" "row * 160 \<le> j \<and> j < 6400" by auto
        show ?thesis unfolding ihj if_P[OF c(1)] if_P[OF c(2)] ..
      next
        case first
        from first(1) obtain m where m1: "j = row * 160 + m" by (metis le_Suc_ex)
        with first(2) have m2: "m < 80" by simp
        note m = m1 m2
        have "j = m + 80 * (2 * row)" using m(1) by simp
        then have "j mod 80 = m mod 80" by (simp only: mod_mult_self2)
        then have q2: "j mod 80 = m" using m(2) by simp
        have q1: "j div 160 = row" using m by simp
        note q = q1 q2
        have c: "\<not> ((row + 1) * 160 \<le> j \<and> j < 6400)" "row * 160 \<le> j \<and> j < 6400"
          "outp \<le> j \<and> j < outp + 2 * 40"
          using first True "1.prems"(1) by auto
        have "(j - outp) div 2 = m div 2" using m "1.prems"(1) by simp
        then show ?thesis
          unfolding ihj if_not_P[OF c(1)] if_P[OF c(2)] o1 scaled_row_def if_P[OF c(3)] q
          by simp
      next
        case second
        from second(1) obtain m where m1: "j = row * 160 + 80 + m" by (metis le_Suc_ex)
        with second(2) have m2: "m < 80" by simp
        note m = m1 m2
        have "j = m + 80 * (2 * row + 1)" using m(1) by simp
        then have "j mod 80 = m mod 80" by (simp only: mod_mult_self2)
        then have q2: "j mod 80 = m" using m(2) by simp
        have q1: "j div 160 = row" using m by simp
        note q = q1 q2
        have c: "\<not> ((row + 1) * 160 \<le> j \<and> j < 6400)" "row * 160 \<le> j \<and> j < 6400"
          "\<not> (outp \<le> j \<and> j < outp + 2 * 40)" "outp + 80 \<le> j \<and> j < outp + 80 + 2 * 40"
          using second True "1.prems"(1) by auto
        have "(j - (outp + 80)) div 2 = m div 2" using m "1.prems"(1) by simp
        then show ?thesis
          unfolding ihj if_not_P[OF c(1)] if_P[OF c(2)] o1 scaled_row_def if_not_P[OF c(3)]
            if_P[OF c(4)] q
          by simp
      next
        case none
        have c: "\<not> ((row + 1) * 160 \<le> j \<and> j < 6400)"
          "\<not> (outp \<le> j \<and> j < outp + 2 * 40)" "\<not> (outp + 80 \<le> j \<and> j < outp + 80 + 2 * 40)"
          using none True "1.prems"(1) by auto
        show ?thesis
          unfolding ihj if_not_P[OF c(1)] if_not_P[OF none] o1 scaled_row_def if_not_P[OF c(2)]
            if_not_P[OF c(3)] ..
      qed
    qed
    have "length (renderTileToBuffer_rows src sx sy pal row outp out) = 6400"
      unfolding step using ih by blast
    with nth show ?thesis by blast
  qed
qed

lemma renderTileToBuffer_pixels:
  assumes "length out = 6400" and "r < 40" and "x < 40" and "a < 2" and "b < 2"
  shows "renderTileToBuffer src tile_x tile_y pal out ! ((2 * r + b) * 80 + 2 * x + a)
           = pal ! unat (src ! ((tile_y * 40 + r) * 640 + tile_x * 40 + x))"
    and "length (renderTileToBuffer src tile_x tile_y pal out) = 6400"
proof -
  let ?j = "(2 * r + b) * 80 + 2 * x + a"
  have j: "?j = r * 160 + (b * 80 + 2 * x + a)" by (simp add: algebra_simps)
  have small: "b * 80 + 2 * x + a < 160" using assms(3,4,5) by simp
  have q1: "?j div 160 = r" unfolding j using small by simp
  have lt: "2 * x + a < 80" using assms(3,4) by simp
  have "b = 0 \<or> b = 1" using assms(5) by linarith
  then have "(b * 80 + 2 * x + a) mod 80 = 2 * x + a"
  proof
    assume "b = 0"
    then show ?thesis using lt by simp
  next
    assume "b = 1"
    then have "(b * 80 + 2 * x + a) mod 80 = (80 + (2 * x + a)) mod 80" by (simp add: add.assoc)
    also have "\<dots> = (2 * x + a) mod 80" by (rule mod_add_self1)
    also have "\<dots> = 2 * x + a" using lt by (rule mod_less)
    finally show ?thesis .
  qed
  then have q2: "?j mod 80 = 2 * x + a"
    unfolding j by (simp add: mod_add_eq[symmetric, of "r * 160"])
  have q3: "(2 * x + a) div 2 = x" using assms(4) by simp
  have range: "0 * 160 \<le> ?j \<and> ?j < 6400" using assms(2) small unfolding j by simp
  note R = renderTileToBuffer_rows_nth[of 0 0 out src "tile_x * TILE_WIDTH" "tile_y * TILE_HEIGHT" pal]
  have "renderTileToBuffer src tile_x tile_y pal out ! ?j
          = pal ! unat (src ! ((tile_y * TILE_HEIGHT + ?j div 160) * 640 + tile_x * TILE_WIDTH
                               + (?j mod 80) div 2))"
    unfolding renderTileToBuffer_def Let_def
    using R assms(1) range by simp
  then show "renderTileToBuffer src tile_x tile_y pal out ! ?j
           = pal ! unat (src ! ((tile_y * 40 + r) * 640 + tile_x * 40 + x))"
    unfolding q1 q2 q3 by simp
  show "length (renderTileToBuffer src tile_x tile_y pal out) = 6400"
    unfolding renderTileToBuffer_def Let_def using R assms(1) by simp
qed

text \<open>
  C10. For a source buffer of 640 * 360 bytes, a valid tile coordinate, any palette of
  256 entries and any previous contents of the two scratch buffers, copying the tile
  with \<^verbatim>\<open>snapshotTile\<close> and converting the copy with \<^verbatim>\<open>renderTileFromSnapshot\<close>
  leaves exactly the same 80 by 80 output block as converting the tile in place with
  \<^verbatim>\<open>renderTileToBuffer\<close>. The copy holds the 40 by 40 bytes of the tile, row after
  row, and the block holds every pixel of the tile, looked up in the palette, in a 2 by 2
  square.
\<close>

theorem snapshot_render_equals_direct_render:
  assumes "tile_x < TILES_X" and "tile_y < TILES_Y"
    and "length src_buffer = MAC_SCREEN_WIDTH * MAC_SCREEN_HEIGHT"
    and "length snapshot = TILE_WIDTH * TILE_HEIGHT"
    and "length local_palette = 256"
    and "length out_buffer = TILE_WIDTH * PIXEL_SCALE * (TILE_HEIGHT * PIXEL_SCALE)"
  shows "renderTileFromSnapshot (snapshotTile src_buffer tile_x tile_y snapshot)
             local_palette out_buffer
           = renderTileToBuffer src_buffer tile_x tile_y local_palette out_buffer
       \<and> (\<forall>r<TILE_HEIGHT. \<forall>x<TILE_WIDTH.
             snapshotTile src_buffer tile_x tile_y snapshot ! (r * TILE_WIDTH + x)
               = src_buffer ! ((tile_y * TILE_HEIGHT + r) * MAC_SCREEN_WIDTH
                                + tile_x * TILE_WIDTH + x))
       \<and> length (snapshotTile src_buffer tile_x tile_y snapshot) = TILE_WIDTH * TILE_HEIGHT
       \<and> (\<forall>r<TILE_HEIGHT. \<forall>x<TILE_WIDTH. \<forall>a<PIXEL_SCALE. \<forall>b<PIXEL_SCALE.
             renderTileToBuffer src_buffer tile_x tile_y local_palette out_buffer
               ! ((PIXEL_SCALE * r + b) * (TILE_WIDTH * PIXEL_SCALE) + PIXEL_SCALE * x + a)
               = local_palette ! unat (src_buffer ! ((tile_y * TILE_HEIGHT + r) * MAC_SCREEN_WIDTH
                                                      + tile_x * TILE_WIDTH + x)))"
proof -
  have l: "length snapshot = 1600" using assms(4) by simp
  have lo: "length out_buffer = 6400" using assms(6) by simp
  have rd: "snapshotTile src_buffer tile_x tile_y snapshot ! (r * 40 + x)
              = src_buffer ! ((tile_y * 40 + r) * 640 + tile_x * 40 + x)"
    if "r < 40" "x < 40" for r x
    using snapshotTile_nth[OF l that] .
  have eq: "renderTileFromSnapshot (snapshotTile src_buffer tile_x tile_y snapshot)
             local_palette out_buffer
           = renderTileToBuffer src_buffer tile_x tile_y local_palette out_buffer"
    unfolding renderTileFromSnapshot_def renderTileToBuffer_def Let_def
    by (rule render_rows_agree) (use rd in simp_all)
  have len: "length (snapshotTile src_buffer tile_x tile_y snapshot) = 1600"
    using l by (simp add: snapshotTile_def)
  have px: "renderTileToBuffer src_buffer tile_x tile_y local_palette out_buffer
               ! ((2 * r + b) * 80 + 2 * x + a)
             = local_palette ! unat (src_buffer ! ((tile_y * 40 + r) * 640 + tile_x * 40 + x))"
    if "r < 40" "x < 40" "a < 2" "b < 2" for r x a b
    using renderTileToBuffer_pixels(1)[OF lo that] .
  from eq rd len px show ?thesis by simp
qed

theorem snapshot_render_equals_direct_render_witness:
  "(3::nat) < TILES_X \<and> (2::nat) < TILES_Y
   \<and> length (replicate 230400 (0x80::uint8)) = MAC_SCREEN_WIDTH * MAC_SCREEN_HEIGHT
   \<and> length (replicate 1600 (0::uint8)) = TILE_WIDTH * TILE_HEIGHT
   \<and> length (replicate 256 (0x00F8::uint16)) = 256
   \<and> length (replicate 6400 (0::uint16)) = TILE_WIDTH * PIXEL_SCALE * (TILE_HEIGHT * PIXEL_SCALE)
   \<and> renderTileFromSnapshot
         (snapshotTile (replicate 230400 0x80) 3 2 (replicate 1600 0))
         (replicate 256 0x00F8) (replicate 6400 0)
       = renderTileToBuffer (replicate 230400 0x80) 3 2 (replicate 256 0x00F8) (replicate 6400 0)
   \<and> snapshotTile (replicate 230400 0x80) 3 2 (replicate 1600 0) ! (5 * TILE_WIDTH + 7) = 0x80
   \<and> renderTileToBuffer (replicate 230400 0x80) 3 2 (replicate 256 0x00F8) (replicate 6400 0)
         ! ((PIXEL_SCALE * 5 + 1) * (TILE_WIDTH * PIXEL_SCALE) + PIXEL_SCALE * 7 + 1) = 0x00F8"
proof -
  have h: "(3::nat) < TILES_X" "(2::nat) < TILES_Y"
    "length (replicate 230400 (0x80::uint8)) = MAC_SCREEN_WIDTH * MAC_SCREEN_HEIGHT"
    "length (replicate 1600 (0::uint8)) = TILE_WIDTH * TILE_HEIGHT"
    "length (replicate 256 (0x00F8::uint16)) = 256"
    "length (replicate 6400 (0::uint16)) = TILE_WIDTH * PIXEL_SCALE * (TILE_HEIGHT * PIXEL_SCALE)"
    by simp_all
  note T = snapshot_render_equals_direct_render[OF h]
  have a: "renderTileFromSnapshot
         (snapshotTile (replicate 230400 0x80) 3 2 (replicate 1600 0))
         (replicate 256 0x00F8) (replicate 6400 0)
       = renderTileToBuffer (replicate 230400 0x80) 3 2 (replicate 256 0x00F8) (replicate 6400 0)"
    by (rule T[THEN conjunct1])
  have "snapshotTile (replicate 230400 0x80) 3 2 (replicate 1600 0) ! (5 * TILE_WIDTH + 7)
          = replicate 230400 (0x80::uint8)
              ! ((2 * TILE_HEIGHT + 5) * MAC_SCREEN_WIDTH + 3 * TILE_WIDTH + 7)"
    using T[THEN conjunct2, THEN conjunct1, rule_format, of 5 7] by simp
  then have b: "snapshotTile (replicate 230400 0x80) 3 2 (replicate 1600 0) ! (5 * TILE_WIDTH + 7)
                  = 0x80"
    by simp
  have "renderTileToBuffer (replicate 230400 0x80) 3 2 (replicate 256 0x00F8) (replicate 6400 0)
         ! ((PIXEL_SCALE * 5 + 1) * (TILE_WIDTH * PIXEL_SCALE) + PIXEL_SCALE * 7 + 1)
        = replicate 256 (0x00F8::uint16)
            ! unat (replicate 230400 (0x80::uint8)
                      ! ((2 * TILE_HEIGHT + 5) * MAC_SCREEN_WIDTH + 3 * TILE_WIDTH + 7))"
    using T[THEN conjunct2, THEN conjunct2, THEN conjunct2, rule_format, of 5 7 1 1] by simp
  then have c: "renderTileToBuffer (replicate 230400 0x80) 3 2 (replicate 256 0x00F8)
         (replicate 6400 0)
         ! ((PIXEL_SCALE * 5 + 1) * (TILE_WIDTH * PIXEL_SCALE) + PIXEL_SCALE * 7 + 1) = 0x00F8"
    by simp
  show ?thesis
    apply (insert h a b c)
    apply (intro conjI)
    apply assumption+
    done
qed

section \<open>Properties of the full-frame conversion\<close>

lemma renderFrame_rows_step:
  assumes "y < 360"
  shows "renderFrame_rows src pal y si fb =
           renderFrame_rows src pal (y + 1) (si + 640)
             (snd (convert_row 640 src pal si (y * 2560) (y * 2560 + 1280) fb))"
proof -
  obtain si' fb' where c: "convert_row 640 src pal si (y * 2560) (y * 2560 + 1280) fb = (si', fb')"
    by (cases "convert_row 640 src pal si (y * 2560) (y * 2560 + 1280) fb")
  have "si' = si + 640"
    using convert_row_fst[of 640 src pal si "y * 2560" "y * 2560 + 1280" fb] c by simp
  moreover have "convert_row 640 src pal si (2560 * y) (2560 * y + 1280) fb = (si', fb')"
    using c by (simp add: mult.commute)
  ultimately show ?thesis
    using assms c by (subst renderFrame_rows.simps) (simp add: Let_def)
qed

lemma renderFrame_rows_stop:
  assumes "\<not> y < 360"
  shows "renderFrame_rows src pal y si fb = fb"
  using assms by (subst renderFrame_rows.simps) simp

lemma renderFrame_rows_nth:
  assumes "si = y * 640" and "length fb = 921600" and "y \<le> 360"
  shows "length (renderFrame_rows src pal y si fb) = 921600
       \<and> (\<forall>j. renderFrame_rows src pal y si fb ! j =
             (if y * 2560 \<le> j \<and> j < 921600
              then pal ! unat (src ! ((j div 2560) * 640 + (j mod 1280) div 2))
              else fb ! j))"
  using assms
proof (induction "360 - y" arbitrary: y si fb)
  case 0
  then have y: "y = 360" by simp
  have "renderFrame_rows src pal y si fb = fb"
    by (rule renderFrame_rows_stop) (simp add: y)
  then show ?case using "0.prems"(2) y by auto
next
  case (Suc n)
  then have True: "y < 360" by simp
  define out1 where "out1 = snd (convert_row 640 src pal si (y * 2560) (y * 2560 + 1280) fb)"
  have ymax: "y * 2560 + 2560 \<le> 921600" using True by simp
  have room: "y * 2560 + 2 * 640 \<le> y * 2560 + 1280"
    "y * 2560 + 1280 + 2 * 640 \<le> length fb"
    using Suc.prems(2) ymax by simp_all
  have o1: "out1 ! j = scaled_row src pal si (y * 2560) (y * 2560 + 1280) 640 fb j" for j
    unfolding out1_def by (rule convert_row_scaled(1)[OF room])
  have len1: "length out1 = 921600"
    unfolding out1_def using convert_row_scaled(2)[OF room] Suc.prems(2) by simp
  have step: "renderFrame_rows src pal y si fb = renderFrame_rows src pal (y + 1) (si + 640) out1"
    unfolding out1_def by (rule renderFrame_rows_step[OF True])
  have ih: "length (renderFrame_rows src pal (y + 1) (si + 640) out1) = 921600
       \<and> (\<forall>j. renderFrame_rows src pal (y + 1) (si + 640) out1 ! j =
             (if (y + 1) * 2560 \<le> j \<and> j < 921600
              then pal ! unat (src ! ((j div 2560) * 640 + (j mod 1280) div 2))
              else out1 ! j))"
  proof (rule Suc.hyps(1))
    show "n = 360 - (y + 1)" using Suc.hyps(2) by simp
    show "si + 640 = (y + 1) * 640" using Suc.prems(1) by simp
    show "length out1 = 921600" by (rule len1)
    show "y + 1 \<le> 360" using True by simp
  qed
  have nth: "renderFrame_rows src pal y si fb ! j =
             (if y * 2560 \<le> j \<and> j < 921600
              then pal ! unat (src ! ((j div 2560) * 640 + (j mod 1280) div 2))
              else fb ! j)" for j
  proof -
    have ihj: "renderFrame_rows src pal y si fb ! j =
             (if (y + 1) * 2560 \<le> j \<and> j < 921600
              then pal ! unat (src ! ((j div 2560) * 640 + (j mod 1280) div 2))
              else out1 ! j)"
      unfolding step using ih by blast
    have e: "(y + 1) * 2560 = y * 2560 + 2560" by simp
    consider (later) "(y + 1) * 2560 \<le> j" "j < 921600"
      | (first) "y * 2560 \<le> j" "j < y * 2560 + 1280"
      | (second) "y * 2560 + 1280 \<le> j" "j < y * 2560 + 2560"
      | (none) "\<not> (y * 2560 \<le> j \<and> j < 921600)"
      unfolding e by linarith
    then show ?thesis
    proof cases
      case later
      then have c: "(y + 1) * 2560 \<le> j \<and> j < 921600" "y * 2560 \<le> j \<and> j < 921600" by auto
      show ?thesis unfolding ihj if_P[OF c(1)] if_P[OF c(2)] ..
    next
      case first
      from first(1) obtain m where m1: "j = y * 2560 + m" by (metis le_Suc_ex)
      with first(2) have m2: "m < 1280" by simp
      note m = m1 m2
      have "j = m + 1280 * (2 * y)" using m(1) by simp
      then have "j mod 1280 = m mod 1280" by (simp only: mod_mult_self2)
      then have q2: "j mod 1280 = m" using m(2) by simp
      have q1: "j div 2560 = y" using m by simp
      note q = q1 q2
      have c: "\<not> ((y + 1) * 2560 \<le> j \<and> j < 921600)" "y * 2560 \<le> j \<and> j < 921600"
        "y * 2560 \<le> j \<and> j < y * 2560 + 2 * 640"
        using first ymax by auto
      have "(j - y * 2560) div 2 = m div 2" using m by simp
      then show ?thesis
        unfolding ihj if_not_P[OF c(1)] if_P[OF c(2)] o1 scaled_row_def if_P[OF c(3)] q
        using Suc.prems(1) by simp
    next
      case second
      from second(1) obtain m where m1: "j = y * 2560 + 1280 + m" by (metis le_Suc_ex)
      with second(2) have m2: "m < 1280" by simp
      note m = m1 m2
      have "j = m + 1280 * (2 * y + 1)" using m(1) by simp
      then have "j mod 1280 = m mod 1280" by (simp only: mod_mult_self2)
      then have q2: "j mod 1280 = m" using m(2) by simp
      have q1: "j div 2560 = y" using m by simp
      note q = q1 q2
      have c: "\<not> ((y + 1) * 2560 \<le> j \<and> j < 921600)" "y * 2560 \<le> j \<and> j < 921600"
        "\<not> (y * 2560 \<le> j \<and> j < y * 2560 + 2 * 640)"
        "y * 2560 + 1280 \<le> j \<and> j < y * 2560 + 1280 + 2 * 640"
        using second ymax by auto
      have "(j - (y * 2560 + 1280)) div 2 = m div 2" using m by simp
      then show ?thesis
        unfolding ihj if_not_P[OF c(1)] if_P[OF c(2)] o1 scaled_row_def if_not_P[OF c(3)]
          if_P[OF c(4)] q
        using Suc.prems(1) by simp
    next
      case none
      have c: "\<not> ((y + 1) * 2560 \<le> j \<and> j < 921600)"
        "\<not> (y * 2560 \<le> j \<and> j < y * 2560 + 2 * 640)"
        "\<not> (y * 2560 + 1280 \<le> j \<and> j < y * 2560 + 1280 + 2 * 640)"
        using none ymax by auto
      show ?thesis
        unfolding ihj if_not_P[OF c(1)] if_not_P[OF none] o1 scaled_row_def if_not_P[OF c(2)]
          if_not_P[OF c(3)] ..
    qed
  qed
  have "length (renderFrame_rows src pal y si fb) = 921600"
    unfolding step using ih by blast
  with nth show ?case by blast
qed

lemma renderFrame_pixels:
  assumes "length fb = 921600" and "y < 360" and "x < 640" and "a < 2" and "b < 2"
  shows "renderFrame_rows src pal 0 0 fb ! ((2 * y + b) * 1280 + 2 * x + a)
           = pal ! unat (src ! (y * 640 + x))"
    and "length (renderFrame_rows src pal 0 0 fb) = 921600"
proof -
  let ?j = "(2 * y + b) * 1280 + 2 * x + a"
  have j: "?j = y * 2560 + (b * 1280 + 2 * x + a)" by (simp add: algebra_simps)
  have small: "b * 1280 + 2 * x + a < 2560" using assms(3,4,5) by simp
  have q1: "?j div 2560 = y" unfolding j using small by simp
  have lt: "2 * x + a < 1280" using assms(3,4) by simp
  have j2: "?j = (2 * x + a) + 1280 * (2 * y + b)" by simp
  have "?j mod 1280 = (2 * x + a) mod 1280" unfolding j2 by (simp only: mod_mult_self2)
  then have q2: "?j mod 1280 = 2 * x + a" using lt by simp
  have q3: "(2 * x + a) div 2 = x" using assms(4) by simp
  have "y * 2560 + 2560 \<le> 921600" using assms(2) by simp
  then have range: "0 * 2560 \<le> ?j \<and> ?j < 921600" using small unfolding j by simp
  note R = renderFrame_rows_nth[of 0 0 fb src pal]
  have "renderFrame_rows src pal 0 0 fb ! ?j
          = pal ! unat (src ! ((?j div 2560) * 640 + (?j mod 1280) div 2))"
    using R assms(1) range by simp
  then show "renderFrame_rows src pal 0 0 fb ! ?j = pal ! unat (src ! (y * 640 + x))"
    unfolding q1 q2 q3 .
  show "length (renderFrame_rows src pal 0 0 fb) = 921600"
    using R assms(1) by simp
qed

section \<open>Properties of a palette change while a full update runs\<close>

lemma set_palette_loop_nth:
  "length (set_palette_loop pal num i palette) = length palette
   \<and> (\<forall>k. set_palette_loop pal num i palette ! k =
         (if i \<le> k \<and> int k < num \<and> k < 256 \<and> k < length palette
          then rgb888_to_rgb565 (pal ! (k * 3 + 0)) (pal ! (k * 3 + 1)) (pal ! (k * 3 + 2))
          else palette ! k))"
proof (induction pal num i palette rule: set_palette_loop.induct)
  case (1 pal num i palette)
  show ?case
  proof (cases "int i < num \<and> i < 256")
    case False
    then show ?thesis by (subst (1 2) set_palette_loop.simps) auto
  next
    case True
    define v where "v = rgb888_to_rgb565 (pal ! (i * 3 + 0)) (pal ! (i * 3 + 1)) (pal ! (i * 3 + 2))"
    have step: "set_palette_loop pal num i palette = set_palette_loop pal num (i + 1) (palette[i := v])"
      using True by (subst set_palette_loop.simps) (simp add: Let_def v_def)
    have ih: "length (set_palette_loop pal num (i + 1) (palette[i := v])) = length (palette[i := v])
      \<and> (\<forall>k. set_palette_loop pal num (i + 1) (palette[i := v]) ! k =
         (if i + 1 \<le> k \<and> int k < num \<and> k < 256 \<and> k < length (palette[i := v])
          then rgb888_to_rgb565 (pal ! (k * 3 + 0)) (pal ! (k * 3 + 1)) (pal ! (k * 3 + 2))
          else palette[i := v] ! k))"
      using "1.IH"[OF True refl refl refl] by (simp add: v_def)
    have "set_palette_loop pal num i palette ! k =
         (if i \<le> k \<and> int k < num \<and> k < 256 \<and> k < length palette
          then rgb888_to_rgb565 (pal ! (k * 3 + 0)) (pal ! (k * 3 + 1)) (pal ! (k * 3 + 2))
          else palette ! k)" for k
    proof (cases "k = i")
      case True
      then show ?thesis
        unfolding step using ih \<open>int i < num \<and> i < 256\<close>
        by (simp add: v_def list_update_beyond)
    next
      case False
      then show ?thesis unfolding step using ih by auto
    qed
    moreover have "length (set_palette_loop pal num i palette) = length palette"
      unfolding step using ih by simp
    ultimately show ?thesis by blast
  qed
qed

lemma VideoInit_success:
  assumes "mac_alloc_ok env" "snapshot_alloc_ok env" "compare_alloc_ok env"
    and "panel_ok env" "dsi_alloc_ok env"
  shows "fst (VideoInit env s) = True"
    and "mac_frame_buffer (snd (VideoInit env s)) = Some (replicate 230400 0x80)"
    and "dsi_framebuffer (snd (VideoInit env s))
           = Some (replicate 921600 (rgb888_to_rgb565 64 64 64))"
    and "palette_rgb565 (snd (VideoInit env s))
           = map (\<lambda>i. rgb888_to_rgb565 (255 - word_of_nat i) (255 - word_of_nat i)
                         (255 - word_of_nat i)) [0..<256]"
    and "force_full_update (snd (VideoInit env s))"
    and "use_write_dirty_tracking (snd (VideoInit env s)) = use_write_dirty_tracking s"
    and "write_dirty_tiles (snd (VideoInit env s)) = write_dirty_tiles s"
  using assms
  by (auto simp add: VideoInit_def ps_malloc_bytes_def getDSIFramebuffer_def
        pushFramebufferToDisplay_def Let_def)

lemma render_frame_idle:
  assumes "\<not> force_full_update s" and "use_write_dirty_tracking s"
    and "write_dirty_tiles s = replicate BITMAP_WORDS 0"
  shows "fst (render_frame tm s) = Skipped"
    and "display (snd (render_frame tm s)) = display s"
    and "dsi_framebuffer (snd (render_frame tm s)) = dsi_framebuffer s"
proof -
  have z: "fst (collectWriteDirtyTiles s) = 0"
    using assms(3) by (simp add: collectWriteDirtyTiles_unfold popcount_zero)
  have rf: "render_frame tm s =
      (Skipped, (snd (collectWriteDirtyTiles s))
         \<lparr>dirty_tile_count := 0,
          perf_detect_us := perf_detect_us (snd (collectWriteDirtyTiles s)) + detect_us tm,
          perf_skip_count := perf_skip_count (snd (collectWriteDirtyTiles s)) + 1,
          perf_frame_count := perf_frame_count (snd (collectWriteDirtyTiles s)) + 1,
          last_frame_ticks := now_ticks tm\<rparr>)"
    unfolding render_frame_def detect_phase_write[OF assms(1,2)] z
    by (simp add: render_phase_def Let_def dirty_threshold_eq)
  show "fst (render_frame tm s) = Skipped" using rf by simp
  show "display (snd (render_frame tm s)) = display s" using rf by simp
  show "dsi_framebuffer (snd (render_frame tm s)) = dsi_framebuffer s" using rf by simp
qed

lemma video_task_step_idle:
  assumes "\<not> force_full_update s" and "use_write_dirty_tracking s"
    and "write_dirty_tiles s = replicate BITMAP_WORDS 0"
    and "\<not> ((notify_value s > 0 \<or> frame_ready s) \<and> now_ticks tm - last_frame_ticks s < mft)"
  shows "fst (video_task_step mft tm s) = Skipped"
    and "display (snd (video_task_step mft tm s)) = display s"
    and "dsi_framebuffer (snd (video_task_step mft tm s)) = dsi_framebuffer s"
proof -
  let ?s = "s\<lparr>notify_value := 0, frame_ready := False\<rparr>"
  have h: "\<not> force_full_update ?s" "use_write_dirty_tracking ?s"
    "write_dirty_tiles ?s = replicate BITMAP_WORDS 0"
    using assms(1,2,3) by simp_all
  obtain out s3 where r: "render_frame tm ?s = (out, s3)" by (cases "render_frame tm ?s")
  have o: "out = Skipped" and d: "display s3 = display s"
    and f: "dsi_framebuffer s3 = dsi_framebuffer s"
    using render_frame_idle[OF h, of tm] r by simp_all
  have st: "video_task_step mft tm s = (Skipped, reportVideoPerfStats (now_ms tm) s3)"
    unfolding video_task_step_runs[OF assms(4)] r o by simp
  show "fst (video_task_step mft tm s) = Skipped" using st by simp
  show "display (snd (video_task_step mft tm s)) = display s" using st d by simp
  show "dsi_framebuffer (snd (video_task_step mft tm s)) = dsi_framebuffer s" using st f by simp
qed

lemma render_phase_full_split:
  "render_phase tm pal True s =
     (FullUpdate, full_update_finish tm (renderFrameToDSI (mac_frame_buffer s) s))"
  by (simp add: render_phase_def full_update_finish_def Let_def)

lemma full_update_interleaved_alone:
  assumes "force_full_update s"
  shows "render_frame tm s = full_update_interleaved (\<lambda>s. s) tm s"
  using assms
  by (simp add: render_frame_def detect_phase_forced render_phase_full_split
        full_update_interleaved_def Let_def)

lemma full_update_interleaved_palette:
  assumes "mac_frame_buffer s = Some src" and "dsi_framebuffer s = Some fb"
  shows "full_update_interleaved (set_palette pal num) tm s =
    (FullUpdate,
     s\<lparr>dsi_framebuffer := Some (renderFrame_rows src (take 256 (palette_rgb565 s)) 0 0 fb),
       palette_rgb565 := set_palette_loop pal num 0 (palette_rgb565 s),
       perf_render_us := perf_render_us s + render_us tm,
       display := display s @
         [StartWrite, SetAddrWindow 0 0 DISPLAY_WIDTH DISPLAY_HEIGHT,
          WritePixels (take (DISPLAY_WIDTH * DISPLAY_HEIGHT)
            (renderFrame_rows src (take 256 (palette_rgb565 s)) 0 0 fb)), EndWrite],
       perf_push_us := perf_push_us s + push_us tm,
       force_full_update := False,
       perf_full_count := perf_full_count s + 1,
       perf_frame_count := perf_frame_count s + 1,
       last_frame_ticks := now_ticks tm\<rparr>)"
  using assms
  by (simp add: full_update_interleaved_def full_update_finish_def set_palette_def
        renderFrameToDSI_def pushFramebufferToDisplay_def Let_def)

text \<open>
  C3 fails on the code when \<^verbatim>\<open>set_palette\<close> is called while a full update is running.
  Take an iteration of the render task that performs a full update (the flag is set and
  both buffers are there), and let the emulation core call \<^verbatim>\<open>set_palette\<close> after
  \<^verbatim>\<open>renderFrameToDSI\<close> has converted the frame and before the iteration reaches
  \<^verbatim>\<open>force_full_update = false\<close> at line 1048. The call succeeds: the new palette is
  stored and the flag is set. The iteration then clears the flag, and the frame it has
  pushed to the display holds, at each of the four display pixels of every source
  pixel, the entry of the palette as it was before the call. When a frame is signalled
  afterwards and the frame period has passed, the next iteration, with no tile marked
  dirty in between, is \<open>Skipped\<close> and sends nothing to the display: the palette change
  is not shown. Without a call in between, the interleaved iteration is \<open>render_frame\<close>.
\<close>

theorem palette_change_during_full_update_is_lost:
  assumes "force_full_update s"
    and "mac_frame_buffer s = Some src" and "dsi_framebuffer s = Some fb"
    and "length fb = DISPLAY_WIDTH * DISPLAY_HEIGHT"
    and "use_write_dirty_tracking s" and "write_dirty_tiles s = replicate BITMAP_WORDS 0"
    and "mft \<le> now_ticks tm2 - now_ticks tm"
  shows "render_frame tm s = full_update_interleaved (\<lambda>s. s) tm s
    \<and> force_full_update (set_palette pal num (renderFrameToDSI (mac_frame_buffer s) s))
    \<and> fst (full_update_interleaved (set_palette pal num) tm s) = FullUpdate
    \<and> palette_rgb565 (snd (full_update_interleaved (set_palette pal num) tm s))
        = set_palette_loop pal num 0 (palette_rgb565 s)
    \<and> \<not> force_full_update (snd (full_update_interleaved (set_palette pal num) tm s))
    \<and> display (snd (full_update_interleaved (set_palette pal num) tm s))
        = display s @ [StartWrite, SetAddrWindow 0 0 DISPLAY_WIDTH DISPLAY_HEIGHT,
            WritePixels (renderFrame_rows src (take 256 (palette_rgb565 s)) 0 0 fb), EndWrite]
    \<and> (\<forall>y<MAC_SCREEN_HEIGHT. \<forall>x<MAC_SCREEN_WIDTH. \<forall>a<2. \<forall>b<2.
          renderFrame_rows src (take 256 (palette_rgb565 s)) 0 0 fb
            ! ((2 * y + b) * DISPLAY_WIDTH + 2 * x + a)
          = palette_rgb565 s ! unat (src ! (y * MAC_SCREEN_WIDTH + x)))
    \<and> fst (video_task_step mft tm2
             (VideoSignalFrameReady (reportVideoPerfStats (now_ms tm)
                (snd (full_update_interleaved (set_palette pal num) tm s))))) = Skipped
    \<and> display (snd (video_task_step mft tm2
             (VideoSignalFrameReady (reportVideoPerfStats (now_ms tm)
                (snd (full_update_interleaved (set_palette pal num) tm s))))))
        = display (snd (full_update_interleaved (set_palette pal num) tm s))"
proof -
  let ?frame = "renderFrame_rows src (take 256 (palette_rgb565 s)) 0 0 fb"
  let ?R = "full_update_interleaved (set_palette pal num) tm s"
  let ?next = "VideoSignalFrameReady (reportVideoPerfStats (now_ms tm) (snd ?R))"
  note R = full_update_interleaved_palette[OF assms(2,3), of pal num tm]
  have len: "length fb = 921600" using assms(4) by simp
  have flen: "length ?frame = 921600"
    by (rule renderFrame_pixels(2)[OF len, of 0 0 0 0]) simp_all
  have c1: "render_frame tm s = full_update_interleaved (\<lambda>s. s) tm s"
    by (rule full_update_interleaved_alone[OF assms(1)])
  have c2: "force_full_update (set_palette pal num (renderFrameToDSI (mac_frame_buffer s) s))"
    by (simp add: set_palette_def Let_def)
  have c3: "fst ?R = FullUpdate" unfolding R by simp
  have c4: "palette_rgb565 (snd ?R) = set_palette_loop pal num 0 (palette_rgb565 s)"
    unfolding R by simp
  have c5: "\<not> force_full_update (snd ?R)" unfolding R by simp
  have c6: "display (snd ?R)
        = display s @ [StartWrite, SetAddrWindow 0 0 DISPLAY_WIDTH DISPLAY_HEIGHT,
            WritePixels ?frame, EndWrite]"
    unfolding R using flen by simp
  have c7: "?frame ! ((2 * y + b) * DISPLAY_WIDTH + 2 * x + a)
          = palette_rgb565 s ! unat (src ! (y * MAC_SCREEN_WIDTH + x))"
    if "y < MAC_SCREEN_HEIGHT" "x < MAC_SCREEN_WIDTH" "a < 2" "b < 2" for y x a b
  proof -
    have h: "y < 360" "x < 640" using that by simp_all
    have "unat (src ! (y * 640 + x)) < 256"
      using unsigned_less[of "src ! (y * 640 + x)"] by simp
    then have "take 256 (palette_rgb565 s) ! unat (src ! (y * 640 + x))
                 = palette_rgb565 s ! unat (src ! (y * 640 + x))"
      by (rule nth_take)
    then show ?thesis
      using renderFrame_pixels(1)[OF len h that(3,4), of src "take 256 (palette_rgb565 s)"]
      by simp
  qed
  have n: "\<not> force_full_update ?next" "use_write_dirty_tracking ?next"
    "write_dirty_tiles ?next = replicate BITMAP_WORDS 0"
    "last_frame_ticks ?next = now_ticks tm" "display ?next = display (snd ?R)"
    unfolding R using assms(5,6)
    by (simp_all add: VideoSignalFrameReady_def reportVideoPerfStats_def Let_def)
  have late: "\<not> ((notify_value ?next > 0 \<or> frame_ready ?next)
                 \<and> now_ticks tm2 - last_frame_ticks ?next < mft)"
  proof -
    have "\<not> now_ticks tm2 - now_ticks tm < mft" using assms(7) by (simp add: not_less)
    then show ?thesis unfolding n(4) by blast
  qed
  have c8: "fst (video_task_step mft tm2 ?next) = Skipped"
    by (rule video_task_step_idle(1)[OF n(1,2,3) late])
  have c9: "display (snd (video_task_step mft tm2 ?next)) = display (snd ?R)"
    using video_task_step_idle(2)[OF n(1,2,3) late] n(5) by simp
  from c1 c2 c3 c4 c5 c6 c7 c8 c9 show ?thesis by blast
qed

theorem palette_change_during_full_update_is_lost_witness:
  "force_full_update
     (snd (VideoInit \<lparr>mac_alloc_ok = True, snapshot_alloc_ok = True, compare_alloc_ok = True,
                      panel_ok = True, dsi_alloc_ok = True, task_create_ok = True,
                      fresh_byte = (\<lambda>i. 0), fresh_pixel = (\<lambda>i. 0)\<rparr> initial_state))
   \<and> mac_frame_buffer
     (snd (VideoInit \<lparr>mac_alloc_ok = True, snapshot_alloc_ok = True, compare_alloc_ok = True,
                      panel_ok = True, dsi_alloc_ok = True, task_create_ok = True,
                      fresh_byte = (\<lambda>i. 0), fresh_pixel = (\<lambda>i. 0)\<rparr> initial_state))
       = Some (replicate 230400 0x80)
   \<and> dsi_framebuffer
     (snd (VideoInit \<lparr>mac_alloc_ok = True, snapshot_alloc_ok = True, compare_alloc_ok = True,
                      panel_ok = True, dsi_alloc_ok = True, task_create_ok = True,
                      fresh_byte = (\<lambda>i. 0), fresh_pixel = (\<lambda>i. 0)\<rparr> initial_state))
       = Some (replicate 921600 (rgb888_to_rgb565 64 64 64))
   \<and> length (replicate 921600 (rgb888_to_rgb565 64 64 64)) = DISPLAY_WIDTH * DISPLAY_HEIGHT
   \<and> use_write_dirty_tracking
     (snd (VideoInit \<lparr>mac_alloc_ok = True, snapshot_alloc_ok = True, compare_alloc_ok = True,
                      panel_ok = True, dsi_alloc_ok = True, task_create_ok = True,
                      fresh_byte = (\<lambda>i. 0), fresh_pixel = (\<lambda>i. 0)\<rparr> initial_state))
   \<and> write_dirty_tiles
     (snd (VideoInit \<lparr>mac_alloc_ok = True, snapshot_alloc_ok = True, compare_alloc_ok = True,
                      panel_ok = True, dsi_alloc_ok = True, task_create_ok = True,
                      fresh_byte = (\<lambda>i. 0), fresh_pixel = (\<lambda>i. 0)\<rparr> initial_state))
       = replicate BITMAP_WORDS 0
   \<and> (67 :: uint32)
       \<le> now_ticks \<lparr>now_ticks = 200, now_ms = 200, detect_us = 0, snapshot_us = 0,
                     render_us = 0, push_us = 0\<rparr>
         - now_ticks \<lparr>now_ticks = 100, now_ms = 100, detect_us = 0, snapshot_us = 0,
                       render_us = 0, push_us = 0\<rparr>
   \<and> palette_rgb565
       (snd (full_update_interleaved (set_palette (replicate 768 0xFF) 256)
          \<lparr>now_ticks = 100, now_ms = 100, detect_us = 0, snapshot_us = 0,
            render_us = 0, push_us = 0\<rparr>
          (snd (VideoInit \<lparr>mac_alloc_ok = True, snapshot_alloc_ok = True,
                  compare_alloc_ok = True, panel_ok = True, dsi_alloc_ok = True,
                  task_create_ok = True, fresh_byte = (\<lambda>i. 0), fresh_pixel = (\<lambda>i. 0)\<rparr>
                  initial_state)))) ! 128 = 0xFFFF
   \<and> \<not> force_full_update
       (snd (full_update_interleaved (set_palette (replicate 768 0xFF) 256)
          \<lparr>now_ticks = 100, now_ms = 100, detect_us = 0, snapshot_us = 0,
            render_us = 0, push_us = 0\<rparr>
          (snd (VideoInit \<lparr>mac_alloc_ok = True, snapshot_alloc_ok = True,
                  compare_alloc_ok = True, panel_ok = True, dsi_alloc_ok = True,
                  task_create_ok = True, fresh_byte = (\<lambda>i. 0), fresh_pixel = (\<lambda>i. 0)\<rparr>
                  initial_state))))
   \<and> renderFrame_rows (replicate 230400 0x80)
       (take 256 (palette_rgb565
          (snd (VideoInit \<lparr>mac_alloc_ok = True, snapshot_alloc_ok = True,
                  compare_alloc_ok = True, panel_ok = True, dsi_alloc_ok = True,
                  task_create_ok = True, fresh_byte = (\<lambda>i. 0), fresh_pixel = (\<lambda>i. 0)\<rparr>
                  initial_state))))
       0 0 (replicate 921600 (rgb888_to_rgb565 64 64 64)) ! 0 = 0xEF7B
   \<and> display
       (snd (full_update_interleaved (set_palette (replicate 768 0xFF) 256)
          \<lparr>now_ticks = 100, now_ms = 100, detect_us = 0, snapshot_us = 0,
            render_us = 0, push_us = 0\<rparr>
          (snd (VideoInit \<lparr>mac_alloc_ok = True, snapshot_alloc_ok = True,
                  compare_alloc_ok = True, panel_ok = True, dsi_alloc_ok = True,
                  task_create_ok = True, fresh_byte = (\<lambda>i. 0), fresh_pixel = (\<lambda>i. 0)\<rparr>
                  initial_state))))
       = display
           (snd (VideoInit \<lparr>mac_alloc_ok = True, snapshot_alloc_ok = True,
                   compare_alloc_ok = True, panel_ok = True, dsi_alloc_ok = True,
                   task_create_ok = True, fresh_byte = (\<lambda>i. 0), fresh_pixel = (\<lambda>i. 0)\<rparr>
                   initial_state))
         @ [StartWrite, SetAddrWindow 0 0 DISPLAY_WIDTH DISPLAY_HEIGHT,
            WritePixels (renderFrame_rows (replicate 230400 0x80)
              (take 256 (palette_rgb565
                 (snd (VideoInit \<lparr>mac_alloc_ok = True, snapshot_alloc_ok = True,
                         compare_alloc_ok = True, panel_ok = True, dsi_alloc_ok = True,
                         task_create_ok = True, fresh_byte = (\<lambda>i. 0),
                         fresh_pixel = (\<lambda>i. 0)\<rparr> initial_state))))
              0 0 (replicate 921600 (rgb888_to_rgb565 64 64 64))), EndWrite]
   \<and> fst (video_task_step 67
            \<lparr>now_ticks = 200, now_ms = 200, detect_us = 0, snapshot_us = 0,
              render_us = 0, push_us = 0\<rparr>
            (VideoSignalFrameReady (reportVideoPerfStats
               (now_ms \<lparr>now_ticks = 100, now_ms = 100, detect_us = 0, snapshot_us = 0,
                         render_us = 0, push_us = 0\<rparr>)
               (snd (full_update_interleaved (set_palette (replicate 768 0xFF) 256)
                  \<lparr>now_ticks = 100, now_ms = 100, detect_us = 0, snapshot_us = 0,
                    render_us = 0, push_us = 0\<rparr>
                  (snd (VideoInit \<lparr>mac_alloc_ok = True, snapshot_alloc_ok = True,
                          compare_alloc_ok = True, panel_ok = True, dsi_alloc_ok = True,
                          task_create_ok = True, fresh_byte = (\<lambda>i. 0),
                          fresh_pixel = (\<lambda>i. 0)\<rparr> initial_state))))))) = Skipped"
proof -
  let ?env = "\<lparr>mac_alloc_ok = True, snapshot_alloc_ok = True, compare_alloc_ok = True,
                panel_ok = True, dsi_alloc_ok = True, task_create_ok = True,
                fresh_byte = (\<lambda>i. 0), fresh_pixel = (\<lambda>i. 0)\<rparr>"
  let ?s = "snd (VideoInit ?env initial_state)"
  let ?src = "replicate 230400 (0x80 :: uint8)"
  let ?fb = "replicate 921600 (rgb888_to_rgb565 64 64 64)"
  let ?tm = "\<lparr>now_ticks = 100, now_ms = 100, detect_us = 0, snapshot_us = 0,
                render_us = 0, push_us = 0\<rparr>"
  let ?tm2 = "\<lparr>now_ticks = 200, now_ms = 200, detect_us = 0, snapshot_us = 0,
                 render_us = 0, push_us = 0\<rparr>"
  let ?pal = "replicate 768 (0xFF :: uint8)"
  have e: "mac_alloc_ok ?env" "snapshot_alloc_ok ?env" "compare_alloc_ok ?env"
    "panel_ok ?env" "dsi_alloc_ok ?env"
    by simp_all
  note I = VideoInit_success[OF e, of initial_state]
  have h1: "force_full_update ?s" by (rule I(5))
  have h2: "mac_frame_buffer ?s = Some ?src" by (rule I(2))
  have h3: "dsi_framebuffer ?s = Some ?fb" by (rule I(3))
  have h4: "length ?fb = DISPLAY_WIDTH * DISPLAY_HEIGHT" by simp
  have h5: "use_write_dirty_tracking ?s" unfolding I(6) by (simp add: initial_state_def)
  have h6: "write_dirty_tiles ?s = replicate BITMAP_WORDS 0"
    unfolding I(7) by (simp add: initial_state_def)
  have h7: "(67 :: uint32) \<le> now_ticks ?tm2 - now_ticks ?tm" by simp
  note T = palette_change_during_full_update_is_lost[OF h1 h2 h3 h4 h5 h6 h7, of ?pal 256]
  have old: "palette_rgb565 ?s ! 128 = 0xEF7B"
    unfolding I(4) by (simp add: rgb888_to_rgb565_def)
  have new: "rgb888_to_rgb565 0xFF 0xFF 0xFF = 0xFFFF"
    by (simp add: rgb888_to_rgb565_def)
  have a: "palette_rgb565 (snd (full_update_interleaved (set_palette ?pal 256) ?tm ?s)) ! 128
             = 0xFFFF"
    unfolding T[THEN conjunct2, THEN conjunct2, THEN conjunct2, THEN conjunct1]
    using set_palette_loop_nth[of ?pal 256 0 "palette_rgb565 ?s", THEN conjunct2, rule_format,
            of 128] new
    by (simp add: I(4))
  have b: "\<not> force_full_update (snd (full_update_interleaved (set_palette ?pal 256) ?tm ?s))"
    by (rule T[THEN conjunct2, THEN conjunct2, THEN conjunct2, THEN conjunct2, THEN conjunct1])
  have "renderFrame_rows ?src (take 256 (palette_rgb565 ?s)) 0 0 ?fb
          ! ((2 * 0 + 0) * DISPLAY_WIDTH + 2 * 0 + 0)
        = palette_rgb565 ?s ! unat (?src ! (0 * MAC_SCREEN_WIDTH + 0))"
    by (rule T[THEN conjunct2, THEN conjunct2, THEN conjunct2, THEN conjunct2, THEN conjunct2,
               THEN conjunct2, THEN conjunct1, rule_format]) simp_all
  then have c: "renderFrame_rows ?src (take 256 (palette_rgb565 ?s)) 0 0 ?fb ! 0 = 0xEF7B"
    using old by simp
  have f: "display (snd (full_update_interleaved (set_palette ?pal 256) ?tm ?s))
        = display ?s @ [StartWrite, SetAddrWindow 0 0 DISPLAY_WIDTH DISPLAY_HEIGHT,
            WritePixels (renderFrame_rows ?src (take 256 (palette_rgb565 ?s)) 0 0 ?fb), EndWrite]"
    by (rule T[THEN conjunct2, THEN conjunct2, THEN conjunct2, THEN conjunct2, THEN conjunct2,
               THEN conjunct1])
  have d: "fst (video_task_step 67 ?tm2
             (VideoSignalFrameReady (reportVideoPerfStats (now_ms ?tm)
                (snd (full_update_interleaved (set_palette ?pal 256) ?tm ?s))))) = Skipped"
    by (rule T[THEN conjunct2, THEN conjunct2, THEN conjunct2, THEN conjunct2, THEN conjunct2,
               THEN conjunct2, THEN conjunct2, THEN conjunct1])
  show ?thesis
    apply (insert h1 h2 h3 h4 h5 h6 h7 a b c f d)
    apply (intro conjI)
    apply assumption+
    done
qed

end
